theory Spec2Isabelle
  imports Main "HOL-Library.Word"
begin

section \<open>Compaction core of goleveldb (leveldb/db\_compaction.go)\<close>

text \<open>
  Byte slices are strings (a \<open>char\<close> is one byte).  Go's \<open>error\<close> interface is a type
  parameter \<open>'e\<close>; a nil error is \<open>None\<close>.  \<open>errors.IsCorrupted\<close> lives in another
  package and is taken as a parameter wherever the code calls it.
\<close>

type_synonym bytes = string

subsection \<open>compactionError: the error state machine\<close>

text \<open>
  The goroutine \<open>compactionError\<close> is three \<open>for { select { ... } }\<close> loops joined by
  \<open>goto\<close>.  Its state is the label it is looping at and the two local variables \<open>err\<close> and
  \<open>wlocked\<close>.  One \<open>select\<close> round is one step, driven by the channel operation that fires:
  a value arriving on \<open>compErrSetC\<close>, a reader taking \<open>err\<close> from \<open>compErrC\<close> or
  \<open>compPerErrC\<close>, the send on \<open>writeLockC\<close>, or \<open>closeC\<close> being closed.  A channel
  operation the current loop has no case for does not fire there: the peer keeps blocking and
  the state is unchanged.  On \<open>closeC\<close> in the persistent loop the write lock is given back
  (a receive on \<open>writeLockC\<close>) when \<open>wlocked\<close> is set; the variable itself is not reset.
\<close>

datatype cerrLabel = noerr | haserr | hasperr | returned

record 'e cerrState =
  ceLabel :: cerrLabel
  ceErr :: "'e option"
  ceWlocked :: bool

datatype 'e cerrEvent =
    CompErrSet "'e option"
  | CompErrRecv
  | CompPerErrRecv
  | WriteLockSend
  | CloseC

definition compactionError_init :: "'e cerrState" where
  "compactionError_init = \<lparr>ceLabel = noerr, ceErr = None, ceWlocked = False\<rparr>"

fun compactionError_step ::
  "('e \<Rightarrow> bool) \<Rightarrow> 'e cerrState \<Rightarrow> 'e cerrEvent \<Rightarrow> 'e cerrState" where
  "compactionError_step isCorrupted s ev =
     (case ceLabel s of
        noerr \<Rightarrow>
          (case ev of
             CompErrSet x \<Rightarrow>
               (case x of
                  None \<Rightarrow> s\<lparr>ceErr := None\<rparr>
                | Some e \<Rightarrow>
                    if isCorrupted e then s\<lparr>ceErr := Some e, ceLabel := hasperr\<rparr>
                    else s\<lparr>ceErr := Some e, ceLabel := haserr\<rparr>)
           | CloseC \<Rightarrow> s\<lparr>ceLabel := returned\<rparr>
           | _ \<Rightarrow> s)
      | haserr \<Rightarrow>
          (case ev of
             CompErrRecv \<Rightarrow> s
           | CompErrSet x \<Rightarrow>
               (case x of
                  None \<Rightarrow> s\<lparr>ceErr := None, ceLabel := noerr\<rparr>
                | Some e \<Rightarrow>
                    if isCorrupted e then s\<lparr>ceErr := Some e, ceLabel := hasperr\<rparr>
                    else s\<lparr>ceErr := Some e\<rparr>)
           | CloseC \<Rightarrow> s\<lparr>ceLabel := returned\<rparr>
           | _ \<Rightarrow> s)
      | hasperr \<Rightarrow>
          (case ev of
             CompErrRecv \<Rightarrow> s
           | CompPerErrRecv \<Rightarrow> s
           | WriteLockSend \<Rightarrow> s\<lparr>ceWlocked := True\<rparr>
           | CloseC \<Rightarrow> s\<lparr>ceLabel := returned\<rparr>
           | CompErrSet x \<Rightarrow> s)
      | returned \<Rightarrow> s)"

text \<open>What a reader of \<open>compErrC\<close> and of \<open>compPerErrC\<close> is offered in a state.\<close>

definition compErrC_offer :: "'e cerrState \<Rightarrow> 'e option" where
  "compErrC_offer s = (if ceLabel s = haserr \<or> ceLabel s = hasperr then ceErr s else None)"

definition compPerErrC_offer :: "'e cerrState \<Rightarrow> 'e option" where
  "compPerErrC_offer s = (if ceLabel s = hasperr then ceErr s else None)"

text \<open>The machine fed a sequence of published values (\<open>compErrSetC\<close> inputs only).\<close>

definition compactionError_run ::
  "('e \<Rightarrow> bool) \<Rightarrow> 'e cerrState \<Rightarrow> 'e option list \<Rightarrow> 'e cerrState" where
  "compactionError_run isCorrupted s xs =
     foldl (compactionError_step isCorrupted) s (map CompErrSet xs)"

subsection \<open>compactionTransact: the retry runner\<close>

text \<open>
  \<open>time.Duration\<close> is a signed 64-bit count of nanoseconds: a \<open>64 word\<close> compared with the
  signed order, whose multiplication wraps.
\<close>

type_synonym duration = "64 word"

definition second :: duration where
  "second = 1000000000"

definition backoffMin :: duration where
  "backoffMin = 1 * second"

definition backoffMax :: duration where
  "backoffMax = 8 * second"

definition backoffMul :: duration where
  "backoffMul = 2 * second"

text \<open>
  A panic carries a value; \<open>compactionExitTransact\<close> panics with the sentinel
  \<open>errCompactionTransactExiting\<close>.  \<open>exec\<close> either returns an error (or nil) or unwinds
  with a panic.
\<close>

datatype panicVal = errCompactionTransactExiting | otherPanic string

datatype 'e execResult = ExecReturn "'e option" | ExecPanic panicVal

text \<open>
  What one round of the \<open>for\<close> loop observes from outside: \<open>db.isClosed()\<close>, what \<open>exec\<close>
  meets (passed on to it), which case of the publishing \<open>select\<close> fires, and whether
  \<open>closeC\<close> fires before the backoff timer.
\<close>

datatype 'e publishCase = SentCompErrSet | RecvCompPerErr 'e | PublishCloseC

record ('e, 'x) roundObs =
  obsIsClosed :: bool
  obsExec :: 'x
  obsPublish :: "'e publishCase"
  obsBackoffCloseC :: bool

datatype 'e logLine =
    LogExiting
  | LogRetrying nat
  | LogError int 'e
  | LogExitingPersistent 'e
  | LogExitingCorruption
  | LogRollbackError 'e

text \<open>
  The local variables of \<open>compactionTransact\<close>, with three traces of its effects: the lines
  given to \<open>db.logf\<close>, the values sent on \<open>compErrSetC\<close>, and the durations given to
  \<open>backoffT.Reset\<close>.
\<close>

record 'e transactVars =
  tvN :: nat
  tvBackoff :: duration
  tvLastCnt :: int
  tvLogged :: "'e logLine list"
  tvPublished :: "'e option list"
  tvWaits :: "duration list"

datatype roundEnd = Returned | Panicked panicVal | NextRound

definition transact_init :: "'e transactVars" where
  "transact_init =
     \<lparr>tvN = 0, tvBackoff = backoffMin, tvLastCnt = 0, tvLogged = [], tvPublished = [],
      tvWaits = []\<rparr>"

definition logf :: "'e logLine \<Rightarrow> 'e transactVars \<Rightarrow> 'e transactVars" where
  "logf l tv = tv\<lparr>tvLogged := tvLogged tv @ [l]\<rparr>"

text \<open>The \<open>if !disableBackoff { ... }\<close> block at the end of a failed round.\<close>

definition transact_backoff ::
  "int \<Rightarrow> bool \<Rightarrow> 'e transactVars \<Rightarrow> roundEnd \<times> 'e transactVars" where
  "transact_backoff cnt closeC tv =
     (let tv1 = (if cnt > tvLastCnt tv then tv\<lparr>tvBackoff := backoffMin, tvLastCnt := cnt\<rparr>
                 else tv);
          tv2 = tv1\<lparr>tvWaits := tvWaits tv1 @ [tvBackoff tv1]\<rparr>;
          tv3 = (if tvBackoff tv2 <s backoffMax
                 then (let b = tvBackoff tv2 * backoffMul
                       in tv2\<lparr>tvBackoff := (if backoffMax <s b then backoffMax else b)\<rparr>)
                 else tv2)
      in if closeC then (Panicked errCompactionTransactExiting, logf LogExiting tv3)
         else (NextRound, tv3))"

text \<open>
  One round of the \<open>for n := 0; ; n++\<close> loop, up to the increment of \<open>n\<close>: first the part
  after \<open>exec\<close> has returned \<open>er\<close> with the counter at \<open>cnt\<close>, then the whole round.
\<close>

definition transact_publish ::
  "('e \<Rightarrow> bool) \<Rightarrow> bool \<Rightarrow> 'e publishCase \<Rightarrow> bool \<Rightarrow> 'e option \<Rightarrow> int \<Rightarrow>
   'e transactVars \<Rightarrow> roundEnd \<times> 'e transactVars" where
  "transact_publish isCorrupted disableBackoff pub closeC er cnt tv =
     (let tv2 = (case er of None \<Rightarrow> tv | Some e \<Rightarrow> logf (LogError cnt e) tv)
      in (case pub of
            PublishCloseC \<Rightarrow> (Panicked errCompactionTransactExiting, logf LogExiting tv2)
          | RecvCompPerErr perr \<Rightarrow>
              (case er of
                 Some e \<Rightarrow>
                   (Panicked errCompactionTransactExiting, logf (LogExitingPersistent perr) tv2)
               | None \<Rightarrow> (Returned, tv2))
          | SentCompErrSet \<Rightarrow>
              (let tv3 = tv2\<lparr>tvPublished := tvPublished tv2 @ [er]\<rparr>
               in (case er of
                     None \<Rightarrow> (Returned, tv3)
                   | Some e \<Rightarrow>
                       (if isCorrupted e
                        then (Panicked errCompactionTransactExiting,
                              logf LogExitingCorruption tv3)
                        else if \<not> disableBackoff then transact_backoff cnt closeC tv3
                        else (NextRound, tv3))))))"

definition transact_round ::
  "('e \<Rightarrow> bool) \<Rightarrow> bool \<Rightarrow> ('x \<Rightarrow> 's \<Rightarrow> 'e execResult \<times> int \<times> 's) \<Rightarrow>
   ('e, 'x) roundObs \<Rightarrow> 'e transactVars \<Rightarrow> 's \<Rightarrow> roundEnd \<times> 'e transactVars \<times> 's" where
  "transact_round isCorrupted disableBackoff exec ob tv s =
     (if obsIsClosed ob then (Panicked errCompactionTransactExiting, logf LogExiting tv, s)
      else
        (let tv1 = (if tvN tv > 0 then logf (LogRetrying (tvN tv)) tv else tv)
         in (case exec (obsExec ob) s of
               (ExecPanic x, cnt, s') \<Rightarrow> (Panicked x, tv1, s')
             | (ExecReturn er, cnt, s') \<Rightarrow>
                 (case transact_publish isCorrupted disableBackoff (obsPublish ob)
                         (obsBackoffCloseC ob) er cnt tv1 of
                    (r, tv') \<Rightarrow> (r, tv', s')))))"

text \<open>
  The loop runs one round per observation.  It has no exit of its own: when the observations
  are used up and no round has returned or panicked, the runner is still retrying
  (\<open>None\<close>).
\<close>

fun transact_loop ::
  "('e \<Rightarrow> bool) \<Rightarrow> bool \<Rightarrow> ('x \<Rightarrow> 's \<Rightarrow> 'e execResult \<times> int \<times> 's) \<Rightarrow>
   ('e, 'x) roundObs list \<Rightarrow> 'e transactVars \<Rightarrow> 's \<Rightarrow>
   (roundEnd \<times> 'e transactVars \<times> 's) option" where
  "transact_loop isCorrupted disableBackoff exec [] tv s = None"
| "transact_loop isCorrupted disableBackoff exec (ob # obs) tv s =
     (case transact_round isCorrupted disableBackoff exec ob tv s of
        (NextRound, tv', s') \<Rightarrow>
          transact_loop isCorrupted disableBackoff exec obs (tv'\<lparr>tvN := tvN tv' + 1\<rparr>) s'
      | (r, tv', s') \<Rightarrow> Some (r, tv', s'))"

text \<open>
  The deferred function: on the sentinel, a registered rollback runs and its error is
  logged; then the same panic value is raised again.
\<close>

definition transact_deferred ::
  "('s \<Rightarrow> 'e option \<times> 's) option \<Rightarrow> roundEnd \<times> 'e transactVars \<times> 's \<Rightarrow>
   roundEnd \<times> 'e transactVars \<times> 's" where
  "transact_deferred rollback res =
     (case res of
        (Panicked x, tv, s) \<Rightarrow>
          (if x = errCompactionTransactExiting
           then (case rollback of
                   Some rb \<Rightarrow>
                     (case rb s of
                        (Some e, s') \<Rightarrow> (Panicked x, logf (LogRollbackError e) tv, s')
                      | (None, s') \<Rightarrow> (Panicked x, tv, s'))
                 | None \<Rightarrow> (Panicked x, tv, s))
           else (Panicked x, tv, s))
      | _ \<Rightarrow> res)"

definition compactionTransact ::
  "('e \<Rightarrow> bool) \<Rightarrow> bool \<Rightarrow> ('x \<Rightarrow> 's \<Rightarrow> 'e execResult \<times> int \<times> 's) \<Rightarrow>
   ('s \<Rightarrow> 'e option \<times> 's) option \<Rightarrow> ('e, 'x) roundObs list \<Rightarrow> 's \<Rightarrow>
   (roundEnd \<times> 'e transactVars \<times> 's) option" where
  "compactionTransact isCorrupted disableBackoff exec rollback obs s =
     map_option (transact_deferred rollback)
       (transact_loop isCorrupted disableBackoff exec obs transact_init s)"

subsection \<open>tableCompaction: the \<open>table@build\<close> step\<close>

text \<open>
  The full merge is the \<open>exec\<close> closure given to \<open>compactionTransact "table@build"\<close>.  It
  reads the compaction object, the session and the options; their code is outside this file,
  so what the closure reads from them is a record of parameters: the key parser, the user
  comparator, the two predicates of the compaction object, the constant \<open>kMaxSeq\<close>, the
  values \<open>minSeq\<close>, \<open>strict\<close> and \<open>tableSize\<close> computed before the closure runs, the
  serialized length of a table writer as a function of what was appended to it, and the
  records the merging iterator yields.  Sequence numbers are \<open>uint64\<close>.
\<close>

datatype kType = ktDel | ktVal

type_synonym entry = "bytes \<times> bytes"

record 'e tcEnv =
  parseIkey :: "bytes \<Rightarrow> 'e + (bytes \<times> 64 word \<times> kType)"
  uCompare :: "bytes \<Rightarrow> bytes \<Rightarrow> int"
  shouldStopBefore :: "bytes \<Rightarrow> bool"
  baseLevelForKey :: "bytes \<Rightarrow> bool"
  cLevel :: int
  kMaxSeq :: "64 word"
  minSeq :: "64 word"
  strict :: bool
  tableSize :: int
  bytesLen :: "entry list \<Rightarrow> int"
  cRecords :: "entry list"

text \<open>
  A table writer holds the number of the file it writes and the entries appended so far.  A
  finished table is staged in the session record as an added table; \<open>atEntries\<close> stands for
  the file's content (the real record keeps its size and key range).
\<close>

record tWriter =
  twNum :: nat
  twEntries :: "entry list"

record atRecord =
  atLevel :: int
  atNum :: nat
  atEntries :: "entry list"

text \<open>
  The state the closures of \<open>tableCompaction\<close> share: \<open>rec.addedTables\<close>, the snapshot
  variables and the two counters declared outside \<open>exec\<close>; the variables local to one run
  of \<open>exec\<close> (\<open>hasLastUkey\<close>, \<open>lastUkey\<close>, \<open>lastSeq\<close>, \<open>snapSched\<close>, \<open>tw\<close> and the
  transact counter, \<open>execCnt\<close> for \<open>*cnt\<close>); the next file number the table operations hand out; and the
  trace of the files removed by \<open>Remove\<close>.
\<close>

record tcState =
  addedTables :: "atRecord list"
  snapHasLastUkey :: bool
  snapLastUkey :: bytes
  snapLastSeq :: "64 word"
  snapIter :: nat
  snapKerrCnt :: int
  snapDropCnt :: int
  kerrCnt :: int
  dropCnt :: int
  hasLastUkey :: bool
  lastUkey :: bytes
  lastSeq :: "64 word"
  snapSched :: bool
  tw :: "tWriter option"
  execCnt :: int
  nextFileNum :: nat
  removedFiles :: "nat list"

definition tableCompaction_init :: "nat \<Rightarrow> tcState" where
  "tableCompaction_init fileNum =
     \<lparr>addedTables = [], snapHasLastUkey = False, snapLastUkey = [], snapLastSeq = 0,
      snapIter = 0, snapKerrCnt = 0, snapDropCnt = 0, kerrCnt = 0, dropCnt = 0,
      hasLastUkey = False, lastUkey = [], lastSeq = 0, snapSched = False, tw = None,
      execCnt = 0,
      nextFileNum = fileNum, removedFiles = []\<rparr>"

text \<open>
  What one run of \<open>exec\<close> meets: for each place an operation can fail and each iteration
  \<open>i\<close>, the error it returns there if any (\<open>AtNext\<close>: \<open>iter.Next()\<close> is false at record
  \<open>i\<close> and \<open>iter.Error()\<close> is that error), and whether the poll before a table is created
  in iteration \<open>i\<close> ends in \<open>compactionExitTransact\<close>.
\<close>

datatype site = AtNext | AtStopFinish | AtCreate | AtAppend | AtSizeFinish | AtLastFinish

record 'e execFaults =
  failAt :: "site \<Rightarrow> nat \<Rightarrow> 'e option"
  exitAt :: "nat \<Rightarrow> bool"

definition noFaults :: "'e execFaults" where
  "noFaults = \<lparr>failAt = (\<lambda>_ _. None), exitAt = (\<lambda>_. False)\<rparr>"

text \<open>The closure \<open>finish\<close>, on the open writer \<open>w\<close>.\<close>

definition finish :: "'e tcEnv \<Rightarrow> 'e option \<Rightarrow> tWriter \<Rightarrow> tcState \<Rightarrow> 'e + tcState" where
  "finish env fault w st =
     (case fault of
        Some e \<Rightarrow> Inl e
      | None \<Rightarrow>
          Inr (st\<lparr>addedTables := addedTables st @
                 [\<lparr>atLevel = cLevel env + 1, atNum = twNum w, atEntries = twEntries w\<rparr>]\<rparr>))"

text \<open>\<open>if kerr == nil && c.shouldStopBefore(ikey) && tw != nil { ... }\<close>\<close>

definition step_stopBefore ::
  "'e tcEnv \<Rightarrow> 'e execFaults \<Rightarrow> nat \<Rightarrow> bytes \<Rightarrow> tcState \<Rightarrow> 'e + tcState" where
  "step_stopBefore env flt i ikey st =
     (case tw st of
        Some w \<Rightarrow>
          (if \<not> isl (parseIkey env ikey) \<and> shouldStopBefore env ikey
           then (case finish env (failAt flt AtStopFinish i) w st of
                   Inl e \<Rightarrow> Inl e
                 | Inr st' \<Rightarrow> Inr (st'\<lparr>snapSched := True, tw := None\<rparr>))
           else Inr st)
      | None \<Rightarrow> Inr st)"

text \<open>\<open>if snapSched { ... }\<close>\<close>

definition step_snapshot :: "nat \<Rightarrow> tcState \<Rightarrow> tcState" where
  "step_snapshot i st =
     (if snapSched st
      then st\<lparr>snapHasLastUkey := hasLastUkey st, snapLastUkey := lastUkey st,
              snapLastSeq := lastSeq st, snapIter := i, snapKerrCnt := kerrCnt st,
              snapDropCnt := dropCnt st, snapSched := False\<rparr>
      else st)"

text \<open>
  \<open>if kerr == nil { ... } else { ... }\<close>: the record is dropped (\<open>continue\<close>), kept, or
  \<open>exec\<close> returns \<open>kerr\<close>.  In the \<open>switch\<close>, the first case falls through into the body of
  the second, so the body runs when either condition holds.
\<close>

datatype 'e verdict = Drop tcState | Keep tcState | KeyError 'e tcState

definition step_track :: "'e tcEnv \<Rightarrow> bytes \<Rightarrow> tcState \<Rightarrow> tcState" where
  "step_track env ukey st =
     (if \<not> hasLastUkey st \<or> uCompare env (lastUkey st) ukey \<noteq> 0
      then st\<lparr>hasLastUkey := True, lastUkey := ukey, lastSeq := kMaxSeq env\<rparr>
      else st)"

definition step_filter :: "'e tcEnv \<Rightarrow> bytes \<Rightarrow> tcState \<Rightarrow> 'e verdict" where
  "step_filter env ikey st =
     (case parseIkey env ikey of
        Inr (ukey, seq, kt) \<Rightarrow>
          (let st1 = step_track env ukey st
           in if lastSeq st1 \<le> minSeq env
                 \<or> (kt = ktDel \<and> seq \<le> minSeq env \<and> baseLevelForKey env (lastUkey st1))
              then Drop (st1\<lparr>lastSeq := seq, dropCnt := dropCnt st1 + 1\<rparr>)
              else Keep (st1\<lparr>lastSeq := seq\<rparr>))
      | Inl kerr \<Rightarrow>
          (if strict env then KeyError kerr st
           else Keep (st\<lparr>hasLastUkey := False, lastUkey := [], lastSeq := kMaxSeq env,
                         kerrCnt := kerrCnt st + 1\<rparr>)))"

text \<open>\<open>if tw == nil { ... }\<close>: the poll, then \<open>db.s.tops.create()\<close>.\<close>

definition step_create ::
  "'e execFaults \<Rightarrow> nat \<Rightarrow> tcState \<Rightarrow> 'e execResult + tcState" where
  "step_create flt i st =
     (case tw st of
        Some w \<Rightarrow> Inr st
      | None \<Rightarrow>
          (if exitAt flt i then Inl (ExecPanic errCompactionTransactExiting)
           else (case failAt flt AtCreate i of
                   Some e \<Rightarrow> Inl (ExecReturn (Some e))
                 | None \<Rightarrow>
                     Inr (st\<lparr>tw := Some \<lparr>twNum = nextFileNum st, twEntries = []\<rparr>,
                              nextFileNum := nextFileNum st + 1\<rparr>))))"

text \<open>\<open>tw.append(ikey, iter.Value())\<close>, then the size check.\<close>

datatype 'e flow = Next tcState | Stop "'e execResult" tcState

definition step_append ::
  "'e tcEnv \<Rightarrow> 'e execFaults \<Rightarrow> nat \<Rightarrow> entry \<Rightarrow> tWriter \<Rightarrow> tcState \<Rightarrow> 'e flow" where
  "step_append env flt i kv w st =
     (case failAt flt AtAppend i of
        Some e \<Rightarrow> Stop (ExecReturn (Some e)) st
      | None \<Rightarrow>
          (let w' = w\<lparr>twEntries := twEntries w @ [kv]\<rparr>;
               st1 = st\<lparr>tw := Some w'\<rparr>
           in if bytesLen env (twEntries w') \<ge> tableSize env
              then (case finish env (failAt flt AtSizeFinish i) w' st1 of
                      Inl e \<Rightarrow> Stop (ExecReturn (Some e)) st1
                    | Inr st2 \<Rightarrow> Next (st2\<lparr>snapSched := True, tw := None\<rparr>))
              else Next st1))"

definition step_write ::
  "'e tcEnv \<Rightarrow> 'e execFaults \<Rightarrow> nat \<Rightarrow> entry \<Rightarrow> tcState \<Rightarrow> 'e flow" where
  "step_write env flt i kv st =
     (case step_create flt i st of
        Inl r \<Rightarrow> Stop r st
      | Inr st1 \<Rightarrow>
          (case tw st1 of
             Some w \<Rightarrow> step_append env flt i kv w st1
           | None \<Rightarrow> Stop (ExecPanic (otherPanic ''nil pointer dereference'')) st1))"

text \<open>The loop body for a record that is not skipped.\<close>

definition build_step ::
  "'e tcEnv \<Rightarrow> 'e execFaults \<Rightarrow> nat \<Rightarrow> entry \<Rightarrow> tcState \<Rightarrow> 'e flow" where
  "build_step env flt i kv st =
     (case step_stopBefore env flt i (fst kv) st of
        Inl e \<Rightarrow> Stop (ExecReturn (Some e)) st
      | Inr st1 \<Rightarrow>
          (case step_filter env (fst kv) (step_snapshot i st1) of
             Drop st2 \<Rightarrow> Next st2
           | KeyError kerr st2 \<Rightarrow> Stop (ExecReturn (Some kerr)) st2
           | Keep st2 \<Rightarrow> step_write env flt i kv st2))"

text \<open>After the loop: \<open>iter.Error()\<close>, then the last table.\<close>

definition build_end ::
  "'e tcEnv \<Rightarrow> 'e execFaults \<Rightarrow> nat \<Rightarrow> tcState \<Rightarrow> 'e execResult \<times> tcState" where
  "build_end env flt i st =
     (case failAt flt AtNext i of
        Some e \<Rightarrow> (ExecReturn (Some e), st)
      | None \<Rightarrow>
          (case tw st of
             Some w \<Rightarrow>
               (if twEntries w \<noteq> []
                then (case finish env (failAt flt AtLastFinish i) w st of
                        Inl e \<Rightarrow> (ExecReturn (Some e), st)
                      | Inr st' \<Rightarrow> (ExecReturn None, st'\<lparr>tw := None\<rparr>))
                else (ExecReturn None, st))
           | None \<Rightarrow> (ExecReturn None, st)))"

text \<open>\<open>for i := 0; iter.Next(); i++ { ... }\<close> over the records still to come.\<close>

fun build_loop ::
  "'e tcEnv \<Rightarrow> 'e execFaults \<Rightarrow> nat \<Rightarrow> entry list \<Rightarrow> tcState \<Rightarrow> 'e execResult \<times> tcState"
  where
  "build_loop env flt i [] st = build_end env flt i st"
| "build_loop env flt i (kv # rest) st =
     (case failAt flt AtNext i of
        Some e \<Rightarrow> (ExecReturn (Some e), st)
      | None \<Rightarrow>
          (let st1 = st\<lparr>execCnt := execCnt st + 1\<rparr>
           in if i < snapIter st1 then build_loop env flt (i + 1) rest st1
              else (case build_step env flt i kv st1 of
                      Next st2 \<Rightarrow> build_loop env flt (i + 1) rest st2
                    | Stop r st2 \<Rightarrow> (r, st2))))"

text \<open>
  The closure \<open>exec\<close>: the locals start from the snapshot, the loop runs, and the deferred
  function drops an open writer.
\<close>

definition tableBuild_exec ::
  "'e tcEnv \<Rightarrow> 'e execFaults \<Rightarrow> tcState \<Rightarrow> 'e execResult \<times> int \<times> tcState" where
  "tableBuild_exec env flt st =
     (case build_loop env flt 0 (cRecords env)
             (st\<lparr>hasLastUkey := snapHasLastUkey st, lastUkey := snapLastUkey st,
                 lastSeq := snapLastSeq st, kerrCnt := snapKerrCnt st,
                 dropCnt := snapDropCnt st, snapSched := (snapIter st = 0), tw := None,
                 execCnt := 0\<rparr>) of
        (r, st1) \<Rightarrow> (r, execCnt st1, st1\<lparr>tw := None\<rparr>))"

text \<open>
  The closure \<open>rollback\<close>: \<open>Remove\<close> each added table's file in order, returning at the
  first error.  \<open>removeErr\<close> is the error \<open>Remove\<close> returns for a file number, if any.
\<close>

fun rollback_loop ::
  "(nat \<Rightarrow> 'e option) \<Rightarrow> atRecord list \<Rightarrow> tcState \<Rightarrow> 'e option \<times> tcState" where
  "rollback_loop removeErr [] st = (None, st)"
| "rollback_loop removeErr (r # rs) st =
     (case removeErr (atNum r) of
        Some e \<Rightarrow> (Some e, st)
      | None \<Rightarrow> rollback_loop removeErr rs (st\<lparr>removedFiles := removedFiles st @ [atNum r]\<rparr>))"

definition tableBuild_rollback ::
  "(nat \<Rightarrow> 'e option) \<Rightarrow> tcState \<Rightarrow> 'e option \<times> tcState" where
  "tableBuild_rollback removeErr st = rollback_loop removeErr (addedTables st) st"

text \<open>
  \<open>compactionTransact "table@build"\<close> with the two closures, from the state
  \<open>tableCompaction\<close> has when it reaches the call.
\<close>

definition tableBuild_transact ::
  "('e \<Rightarrow> bool) \<Rightarrow> bool \<Rightarrow> 'e tcEnv \<Rightarrow> (nat \<Rightarrow> 'e option) \<Rightarrow>
   ('e, 'e execFaults) roundObs list \<Rightarrow> tcState \<Rightarrow>
   (roundEnd \<times> 'e transactVars \<times> tcState) option" where
  "tableBuild_transact isCorrupted disableBackoff env removeErr obs st =
     compactionTransact isCorrupted disableBackoff (tableBuild_exec env)
       (Some (tableBuild_rollback removeErr)) obs st"

text \<open>Everything written so far: the finished tables in order, then the open writer.\<close>

definition emitted :: "tcState \<Rightarrow> entry list" where
  "emitted st =
     concat (map atEntries (addedTables st)) @
     (case tw st of None \<Rightarrow> [] | Some w \<Rightarrow> twEntries w)"

subsection \<open>tableRangeCompaction\<close>

text \<open>
  The session and \<open>tableCompaction\<close> as \<open>tableRangeCompaction\<close> uses them: the tables of
  the current version, one entry per level; whether a level's tables overlap the range;
  \<open>getCompactionRange\<close>, nil being \<open>None\<close>; and \<open>tableCompaction\<close>, which changes the
  session or unwinds with a panic.  The state carries the session and the trace of the
  calls made to \<open>tableCompaction\<close>, each with the level asked for and the flag \<open>noTrivial\<close>.
\<close>

record ('s, 't, 'c) rangeEnv =
  versionTables :: "'s \<Rightarrow> 't list"
  overlaps :: "'t \<Rightarrow> bytes \<Rightarrow> bytes \<Rightarrow> bool"
  getCompactionRange :: "'s \<Rightarrow> int \<Rightarrow> bytes \<Rightarrow> bytes \<Rightarrow> 'c option"
  tableCompaction :: "'c \<Rightarrow> bool \<Rightarrow> 's \<Rightarrow> panicVal + 's"

type_synonym 's rangeState = "'s \<times> (int \<times> bool) list"

text \<open>
  The first test of \<open>tableCompaction\<close>, \<open>if !noTrivial && c.trivial()\<close>: whether the
  compaction is done as a trivial move.
\<close>

definition tableCompaction_moves :: "bool \<Rightarrow> bool \<Rightarrow> bool" where
  "tableCompaction_moves noTrivial cTrivial = (\<not> noTrivial \<and> cTrivial)"

text \<open>\<open>if c := db.s.getCompactionRange(level, umin, umax); c != nil { ... }\<close>\<close>

definition rangeCompactLevel ::
  "('s, 't, 'c) rangeEnv \<Rightarrow> int \<Rightarrow> bytes \<Rightarrow> bytes \<Rightarrow> 's rangeState \<Rightarrow>
   panicVal + 's rangeState" where
  "rangeCompactLevel env level umin umax st =
     (case getCompactionRange env (fst st) level umin umax of
        None \<Rightarrow> Inr st
      | Some c \<Rightarrow>
          (case tableCompaction env c True (fst st) of
             Inl x \<Rightarrow> Inl x
           | Inr s' \<Rightarrow> Inr (s', snd st @ [(level, True)])))"

text \<open>\<open>for i, t := range v.tables[1:] { if t.overlaps(...) { m = i + 1 } }\<close>\<close>

fun rangeDeepest :: "('t \<Rightarrow> bool) \<Rightarrow> int \<Rightarrow> 't list \<Rightarrow> int \<Rightarrow> int" where
  "rangeDeepest ov i [] m = m"
| "rangeDeepest ov i (t # ts) m = rangeDeepest ov (i + 1) ts (if ov t then i + 1 else m)"

text \<open>\<open>for level := 0; level < m; level++ { ... }\<close>\<close>

function rangeLevels ::
  "('s, 't, 'c) rangeEnv \<Rightarrow> bytes \<Rightarrow> bytes \<Rightarrow> int \<Rightarrow> int \<Rightarrow> 's rangeState \<Rightarrow>
   panicVal + 's rangeState" where
  "rangeLevels env umin umax m level st =
     (if level < m
      then (case rangeCompactLevel env level umin umax st of
              Inl x \<Rightarrow> Inl x
            | Inr st' \<Rightarrow> rangeLevels env umin umax m (level + 1) st')
      else Inr st)"
  by pat_completeness auto
termination
  by (relation "measure (\<lambda>(env, umin, umax, m, level, st). nat (m - level))") auto

declare rangeLevels.simps [simp del]

definition tableRangeCompaction ::
  "('s, 't, 'c) rangeEnv \<Rightarrow> int \<Rightarrow> bytes \<Rightarrow> bytes \<Rightarrow> 's rangeState \<Rightarrow>
   panicVal + 's rangeState" where
  "tableRangeCompaction env level umin umax st =
     (if level \<ge> 0 then rangeCompactLevel env level umin umax st
      else (case versionTables env (fst st) of
              [] \<Rightarrow> Inl (otherPanic ''slice bounds out of range'')
            | t0 # ts \<Rightarrow>
                rangeLevels env umin umax
                  (rangeDeepest (\<lambda>t. overlaps env t umin umax) 0 ts 1) 0 st))"

text \<open>
  "For every level in a list, do the same", in the words of the description of one level:
  fetch a compaction covering the range at the level and, if there is one, run it with
  \<open>noTrivial = true\<close>; then go on to the next level with the session it has left.  A
  compaction that unwinds with a panic ends it all.
\<close>

fun rangeEachLevel ::
  "('s, 't, 'c) rangeEnv \<Rightarrow> bytes \<Rightarrow> bytes \<Rightarrow> int list \<Rightarrow> 's rangeState \<Rightarrow>
   panicVal + 's rangeState" where
  "rangeEachLevel env umin umax [] st = Inr st"
| "rangeEachLevel env umin umax (l # ls) st =
     (case getCompactionRange env (fst st) l umin umax of
        None \<Rightarrow> rangeEachLevel env umin umax ls st
      | Some c \<Rightarrow>
          (case tableCompaction env c True (fst st) of
             Inl x \<Rightarrow> Inl x
           | Inr s' \<Rightarrow> rangeEachLevel env umin umax ls (s', snd st @ [(l, True)])))"

text \<open>
  A small session for the worked input: a version is the list of its levels, each the list
  of its table names; a level overlaps any range when it has a table; a compaction of a
  level exists when the level has a table, and running it moves the level's tables into
  the next level.
\<close>

definition ex_rangeEnv :: "(string list list, string list, nat) rangeEnv" where
  "ex_rangeEnv =
     \<lparr>versionTables = (\<lambda>s. s),
      overlaps = (\<lambda>t umin umax. t \<noteq> []),
      getCompactionRange =
        (\<lambda>s level umin umax.
           if 0 \<le> level \<and> nat level + 1 < length s \<and> s ! nat level \<noteq> []
           then Some (nat level) else None),
      tableCompaction =
        (\<lambda>c noTrivial s. Inr (s[c + 1 := s ! (c + 1) @ s ! c, c := []]))\<rparr>"

subsection \<open>Worked inputs\<close>

text \<open>
  The inputs of the worked scenarios.  Internal keys are written as in the scenarios,
  \<open>a#5\<close> for user key \<open>a\<close> at sequence 5 and \<open>a#7D\<close> for a deletion; \<open>ex_parseIkey\<close>
  decodes the ones that occur and rejects every other key.  \<open>bytesCompare\<close> is the bytewise
  comparison, and \<open>ex_bytesLen\<close> counts the bytes of the keys and values appended.
\<close>

fun bytesCompare :: "bytes \<Rightarrow> bytes \<Rightarrow> int" where
  "bytesCompare [] [] = 0"
| "bytesCompare [] (y # ys) = - 1"
| "bytesCompare (x # xs) [] = 1"
| "bytesCompare (x # xs) (y # ys) =
     (if (of_char x :: nat) < of_char y then - 1
      else if (of_char y :: nat) < of_char x then 1
      else bytesCompare xs ys)"

definition ex_parseIkey :: "bytes \<Rightarrow> string + (bytes \<times> 64 word \<times> kType)" where
  "ex_parseIkey ikey =
     (if ikey = ''a#5'' then Inr (''a'', 5, ktVal)
      else if ikey = ''a#3'' then Inr (''a'', 3, ktVal)
      else if ikey = ''a#7D'' then Inr (''a'', 7, ktDel)
      else if ikey = ''a#2D'' then Inr (''a'', 2, ktDel)
      else if ikey = ''b#4'' then Inr (''b'', 4, ktVal)
      else Inl ''corrupted key'')"

definition ex_bytesLen :: "entry list \<Rightarrow> int" where
  "ex_bytesLen es = (\<Sum>(k, v)\<leftarrow>es. int (length k) + int (length v))"

definition ex_env :: "64 word \<Rightarrow> bool \<Rightarrow> int \<Rightarrow> entry list \<Rightarrow> string tcEnv" where
  "ex_env q strictMode tsize recs =
     \<lparr>parseIkey = ex_parseIkey, uCompare = bytesCompare, shouldStopBefore = (\<lambda>_. False),
      baseLevelForKey = (\<lambda>_. True), cLevel = 0, kMaxSeq = 2 ^ 56 - 1, minSeq = q,
      strict = strictMode, tableSize = tsize, bytesLen = ex_bytesLen, cRecords = recs\<rparr>"

text \<open>The state of the merge after it has kept \<open>(a#5, v5)\<close> in a table writer.\<close>

definition ex_after_a5 :: tcState where
  "ex_after_a5 =
     (tableCompaction_init 11)
       \<lparr>hasLastUkey := True, lastUkey := ''a'', lastSeq := 5,
        tw := Some \<lparr>twNum = 10, twEntries = [(''a#5'', ''v5'')]\<rparr>, execCnt := 1\<rparr>"

text \<open>
  A round in which the database is open, the result of \<open>exec\<close> is published and the backoff
  timer fires; \<open>exec\<close> meets \<open>x\<close>.  Then a run of \<open>exec\<close> whose iterator fails at
  record 1.
\<close>

definition ex_round :: "'x \<Rightarrow> (string, 'x) roundObs" where
  "ex_round x =
     \<lparr>obsIsClosed = False, obsExec = x, obsPublish = SentCompErrSet,
      obsBackoffCloseC = False\<rparr>"

definition ex_iterFault :: "string execFaults" where
  "ex_iterFault =
     \<lparr>failAt = (\<lambda>s i. if s = AtNext \<and> i = 1 then Some ''read error'' else None),
      exitAt = (\<lambda>_. False)\<rparr>"

text \<open>A run of \<open>exec\<close> that finds \<open>closeC\<close> closed when it polls in iteration 1.\<close>

definition ex_exitFault :: "string execFaults" where
  "ex_exitFault = \<lparr>failAt = (\<lambda>s i. None), exitAt = (\<lambda>i. i = 1)\<rparr>"

subsection \<open>Notions used to state the properties\<close>

text \<open>
  A run of the loop over the first records only: the state the loop has reached when it goes
  on to the records after them, or how and where \<open>exec\<close> stopped among them.
\<close>

fun build_prefix ::
  "'e tcEnv \<Rightarrow> 'e execFaults \<Rightarrow> nat \<Rightarrow> entry list \<Rightarrow> tcState \<Rightarrow> 'e flow" where
  "build_prefix env flt i [] st = Next st"
| "build_prefix env flt i (kv # rest) st =
     (case failAt flt AtNext i of
        Some e \<Rightarrow> Stop (ExecReturn (Some e)) st
      | None \<Rightarrow>
          (let st1 = st\<lparr>execCnt := execCnt st + 1\<rparr>
           in if i < snapIter st1 then build_prefix env flt (i + 1) rest st1
              else (case build_step env flt i kv st1 of
                      Next st2 \<Rightarrow> build_prefix env flt (i + 1) rest st2
                    | Stop r st2 \<Rightarrow> Stop r st2)))"

text \<open>The state in which \<open>exec\<close> enters its loop: the locals set from the snapshot.\<close>

definition tableBuild_start :: "tcState \<Rightarrow> tcState" where
  "tableBuild_start st =
     st\<lparr>hasLastUkey := snapHasLastUkey st, lastUkey := snapLastUkey st,
        lastSeq := snapLastSeq st, kerrCnt := snapKerrCnt st,
        dropCnt := snapDropCnt st, snapSched := (snapIter st = 0), tw := None,
        execCnt := 0\<rparr>"

text \<open>The sequence number of a well-formed internal key.\<close>

definition ikeySeq :: "'e tcEnv \<Rightarrow> bytes \<Rightarrow> 64 word" where
  "ikeySeq env ikey = (case parseIkey env ikey of Inr (ukey, sq, kt) \<Rightarrow> sq | Inl kerr \<Rightarrow> 0)"

text \<open>
  A deletion record that Rule B calls obsolete: well-formed, a deletion, at or below
  \<open>minSeq\<close>, for a user key no deeper level holds.
\<close>

definition obsoleteTombstone :: "'e tcEnv \<Rightarrow> bytes \<Rightarrow> bool" where
  "obsoleteTombstone env ikey =
     (case parseIkey env ikey of
        Inr (ukey, sq, kt) \<Rightarrow> kt = ktDel \<and> sq \<le> minSeq env \<and> baseLevelForKey env ukey
      | Inl kerr \<Rightarrow> False)"

fun flowState :: "'e flow \<Rightarrow> tcState" where
  "flowState (Next st) = st"
| "flowState (Stop r st) = st"

text \<open>No record written so far is an obsolete tombstone.\<close>

definition outputClean :: "'e tcEnv \<Rightarrow> tcState \<Rightarrow> bool" where
  "outputClean env st = (\<forall>kv \<in> set (emitted st). \<not> obsoleteTombstone env (fst kv))"

section \<open>Theorems\<close>

lemma compactionError_run_hasperr:
  "ceLabel s = hasperr \<Longrightarrow> compactionError_run isCorrupted s xs = s"
  unfolding compactionError_run_def by (induction xs arbitrary: s) simp_all

text \<open>
  C4. The error state machine implements the three-state transition table.  From NoError
  (label \<open>noerr\<close>) or Transient (label \<open>haserr\<close>) a nil input leads to NoError, a corruption
  input to Persistent (label \<open>hasperr\<close>) holding that error, and any other error to Transient
  holding that error (the latest one wins).  From Persistent every input, and every sequence
  of inputs, leaves the machine in Persistent with its error unchanged.
\<close>

theorem compactionError_transition_table:
  "(ceLabel s = noerr \<or> ceLabel s = haserr \<longrightarrow>
      ceLabel (compactionError_step isCorrupted s (CompErrSet None)) = noerr
    \<and> (isCorrupted e \<longrightarrow>
         ceLabel (compactionError_step isCorrupted s (CompErrSet (Some e))) = hasperr
       \<and> ceErr (compactionError_step isCorrupted s (CompErrSet (Some e))) = Some e)
    \<and> (\<not> isCorrupted e \<longrightarrow>
         ceLabel (compactionError_step isCorrupted s (CompErrSet (Some e))) = haserr
       \<and> ceErr (compactionError_step isCorrupted s (CompErrSet (Some e))) = Some e))
   \<and> (ceLabel s = hasperr \<longrightarrow>
        compactionError_step isCorrupted s (CompErrSet x) = s
      \<and> ceLabel (compactionError_run isCorrupted s xs) = hasperr
      \<and> ceErr (compactionError_run isCorrupted s xs) = ceErr s)"
  by (auto simp: compactionError_run_hasperr)

theorem compactionError_transition_table_witness:
  "(ceLabel (compactionError_init :: string cerrState) = noerr
      \<or> ceLabel (compactionError_init :: string cerrState) = haserr)
   \<and> ceLabel (compactionError_step (\<lambda>e. e = ''corrupted'') compactionError_init
         (CompErrSet (Some ''io''))) = haserr
   \<and> ceLabel (compactionError_step (\<lambda>e. e = ''corrupted'') compactionError_init
         (CompErrSet (Some ''corrupted''))) = hasperr
   \<and> ceLabel (compactionError_run (\<lambda>e. e = ''corrupted'')
         \<lparr>ceLabel = hasperr, ceErr = Some ''corrupted'', ceWlocked = False\<rparr>
         [None, Some ''io'']) = hasperr"
  using compactionError_transition_table
          [of compactionError_init "\<lambda>e. e = ''corrupted''" "''io''" None "[]"]
        compactionError_transition_table
          [of compactionError_init "\<lambda>e. e = ''corrupted''" "''corrupted''" None "[]"]
        compactionError_transition_table
          [of "\<lparr>ceLabel = hasperr, ceErr = Some ''corrupted'', ceWlocked = False\<rparr>"
              "\<lambda>e. e = ''corrupted''" "''io''" None "[None, Some ''io'']"]
  by (simp add: compactionError_init_def)

lemma backoff_consts:
  "backoffMin = 1000000000" "backoffMax = 8000000000" "backoffMul = 2000000000"
  by (simp_all add: backoffMin_def backoffMax_def backoffMul_def second_def)

text \<open>
  C6. With backoff enabled, four failed rounds in a row that make no progress (\<open>exec\<close> returns
  an error and never increments the counter, as the \<open>exec\<close> of \<open>mem@flush\<close> does) wait
  1s, 8s, 8s and 8s: \<open>backoffMul\<close> is \<open>2 * time.Second\<close>, so the first multiplication
  gives 2 * 10^18 ns, which is cut to \<open>backoffMax\<close>.  The waits are not 1s, 2s, 4s, 8s.
\<close>

theorem compactionTransact_backoff_waits:
  "map_option (\<lambda>(r, tv, s). (r, tvWaits tv))
     (compactionTransact (\<lambda>e. False) False (\<lambda>x s. (ExecReturn x, 0, s)) None
        [\<lparr>obsIsClosed = False, obsExec = Some ''io'', obsPublish = SentCompErrSet,
          obsBackoffCloseC = False\<rparr>,
         \<lparr>obsIsClosed = False, obsExec = Some ''io'', obsPublish = SentCompErrSet,
          obsBackoffCloseC = False\<rparr>,
         \<lparr>obsIsClosed = False, obsExec = Some ''io'', obsPublish = SentCompErrSet,
          obsBackoffCloseC = False\<rparr>,
         \<lparr>obsIsClosed = False, obsExec = Some ''io'', obsPublish = SentCompErrSet,
          obsBackoffCloseC = False\<rparr>,
         \<lparr>obsIsClosed = False, obsExec = None, obsPublish = SentCompErrSet,
          obsBackoffCloseC = False\<rparr>] ())
   = Some (Returned, [1 * second, 8 * second, 8 * second, 8 * second])
   \<and> [1 * second, 8 * second, 8 * second, 8 * second]
       \<noteq> [1 * second, 2 * second, 4 * second, 8 * second]"
  by (simp add: compactionTransact_def transact_round_def transact_publish_def
        transact_backoff_def transact_deferred_def transact_init_def logf_def backoff_consts
        second_def Let_def)

text \<open>
  C7 (as amended). With backoff enabled, in a failed round that is not cut short (the
  database is not closed, \<open>exec\<close> returns an error that is not a corruption, and the error
  is published), if the round's counter \<open>cnt\<close> is greater than \<open>lastCnt\<close>, the duration
  given to the backoff timer for the wait that follows is \<open>backoffMin\<close>, one second, and
  \<open>lastCnt\<close> becomes \<open>cnt\<close>; otherwise the wait is the current backoff and \<open>lastCnt\<close>
  stays.  So \<open>lastCnt\<close> is the highest counter of the failed rounds so far, and a counter
  above it resets the backoff.
\<close>

theorem compactionTransact_backoff_reset:
  assumes "\<not> obsIsClosed ob"
    and "exec (obsExec ob) s = (ExecReturn (Some e), cnt, s')"
    and "\<not> isCorrupted e"
    and "obsPublish ob = SentCompErrSet"
  shows "(tvLastCnt tv < cnt \<longrightarrow>
            tvWaits (fst (snd (transact_round isCorrupted False exec ob tv s)))
              = tvWaits tv @ [backoffMin]
          \<and> backoffMin = 1000000000
          \<and> tvLastCnt (fst (snd (transact_round isCorrupted False exec ob tv s))) = cnt)
       \<and> (cnt \<le> tvLastCnt tv \<longrightarrow>
            tvWaits (fst (snd (transact_round isCorrupted False exec ob tv s)))
              = tvWaits tv @ [tvBackoff tv]
          \<and> tvLastCnt (fst (snd (transact_round isCorrupted False exec ob tv s)))
              = tvLastCnt tv)"
  using assms
  by (auto simp: transact_round_def transact_publish_def transact_backoff_def logf_def
        backoff_consts Let_def split: if_splits)

theorem compactionTransact_backoff_reset_witness:
  "tvWaits (fst (snd (transact_round (\<lambda>e. False) False (\<lambda>x s. (ExecReturn x, 3, s))
      (ex_round (Some ''io''))
      \<lparr>tvN = 1, tvBackoff = backoffMax, tvLastCnt = 2, tvLogged = [], tvPublished = [],
        tvWaits = [backoffMin]\<rparr> ())))
   = [backoffMin, backoffMin]
   \<and> tvWaits (fst (snd (transact_round (\<lambda>e. False) False (\<lambda>x s. (ExecReturn x, 2, s))
      (ex_round (Some ''io''))
      \<lparr>tvN = 1, tvBackoff = backoffMax, tvLastCnt = 2, tvLogged = [], tvPublished = [],
        tvWaits = [backoffMin]\<rparr> ())))
   = [backoffMin, backoffMax]"
  using compactionTransact_backoff_reset
    [of "ex_round (Some ''io'')" "\<lambda>x s. (ExecReturn x, 3, s)" "()" "''io''" 3 "()"
        "\<lambda>e. False"
        "\<lparr>tvN = 1, tvBackoff = backoffMax, tvLastCnt = 2, tvLogged = [], tvPublished = [],
          tvWaits = [backoffMin]\<rparr>"]
    compactionTransact_backoff_reset
    [of "ex_round (Some ''io'')" "\<lambda>x s. (ExecReturn x, 2, s)" "()" "''io''" 2 "()"
        "\<lambda>e. False"
        "\<lparr>tvN = 1, tvBackoff = backoffMax, tvLastCnt = 2, tvLogged = [], tvPublished = [],
          tvWaits = [backoffMin]\<rparr>"]
  by (simp add: ex_round_def)

text \<open>
  Three failed rounds whose counters are 2, 1 and 2, then a success: the counter of the
  third round is above that of the second, the failed round before it, and the third wait
  is still eight seconds.
\<close>

theorem compactionTransact_backoff_last_round_counterexample:
  "map_option (\<lambda>(r, tv, s). (r, tvWaits tv))
     (compactionTransact (\<lambda>e. False) False (\<lambda>x s. (ExecReturn (fst x), snd x, s)) None
        [ex_round (Some ''io'', 2), ex_round (Some ''io'', 1), ex_round (Some ''io'', 2),
         ex_round (None, 0)] ())
   = Some (Returned, [1 * second, 8 * second, 8 * second])"
  by (simp add: compactionTransact_def transact_round_def transact_publish_def
        transact_backoff_def transact_deferred_def transact_init_def logf_def backoff_consts
        second_def ex_round_def Let_def)

subsection \<open>The merge step\<close>

lemma emitted_finish:
  "tw st = Some w \<Longrightarrow> finish env None w st = Inr st' \<Longrightarrow>
   emitted (st'\<lparr>snapSched := b, tw := None\<rparr>) = emitted st"
  by (auto simp: finish_def emitted_def)

lemma step_stopBefore_Inr:
  assumes "step_stopBefore env flt i ikey st = Inr st'"
  shows "emitted st' = emitted st" "dropCnt st' = dropCnt st" "kerrCnt st' = kerrCnt st"
    "hasLastUkey st' = hasLastUkey st" "lastUkey st' = lastUkey st" "lastSeq st' = lastSeq st"
    "snapIter st' = snapIter st" "execCnt st' = execCnt st"
  using assms
  by (auto simp: step_stopBefore_def finish_def emitted_def
           split: option.splits if_splits sum.splits)

lemma step_stopBefore_no_fault:
  "failAt flt AtStopFinish i = None \<Longrightarrow> \<exists>st'. step_stopBefore env flt i ikey st = Inr st'"
  by (auto simp: step_stopBefore_def finish_def split: option.splits)

lemma step_stopBefore_kerr:
  "isl (parseIkey env ikey) \<Longrightarrow> step_stopBefore env flt i ikey st = Inr st"
  by (auto simp: step_stopBefore_def split: option.splits)

lemma step_snapshot_same:
  "emitted (step_snapshot i st) = emitted st" "dropCnt (step_snapshot i st) = dropCnt st"
  "kerrCnt (step_snapshot i st) = kerrCnt st"
  "hasLastUkey (step_snapshot i st) = hasLastUkey st"
  "lastUkey (step_snapshot i st) = lastUkey st" "lastSeq (step_snapshot i st) = lastSeq st"
  "tw (step_snapshot i st) = tw st" "addedTables (step_snapshot i st) = addedTables st"
  "execCnt (step_snapshot i st) = execCnt st"
  by (simp_all add: step_snapshot_def emitted_def)

lemma build_step_drop:
  assumes "parseIkey env ikey = Inr (ukey, sq, kt)"
    and "step_stopBefore env flt i ikey st = Inr st1"
    and "lastSeq (step_track env ukey (step_snapshot i st1)) \<le> minSeq env
         \<or> (kt = ktDel \<and> sq \<le> minSeq env
             \<and> baseLevelForKey env (lastUkey (step_track env ukey (step_snapshot i st1))))"
  shows "build_step env flt i (ikey, v) st
           = Next ((step_track env ukey (step_snapshot i st1))
                     \<lparr>lastSeq := sq,
                      dropCnt := dropCnt (step_track env ukey (step_snapshot i st1)) + 1\<rparr>)"
  using assms by (simp add: build_step_def step_filter_def Let_def)

lemma step_track_same:
  "emitted (step_track env ukey st) = emitted st" "dropCnt (step_track env ukey st) = dropCnt st"
  "kerrCnt (step_track env ukey st) = kerrCnt st" "tw (step_track env ukey st) = tw st"
  "addedTables (step_track env ukey st) = addedTables st"
  "snapIter (step_track env ukey st) = snapIter st"
  "execCnt (step_track env ukey st) = execCnt st"
  "hasLastUkey (step_track env ukey st)"
  by (simp_all add: step_track_def emitted_def)

lemma step_track_tracked:
  "hasLastUkey st \<Longrightarrow> uCompare env (lastUkey st) ukey = 0 \<Longrightarrow> step_track env ukey st = st"
  by (simp add: step_track_def)

lemma step_snapshot_snapIter: "snapIter st \<le> i \<Longrightarrow> snapIter (step_snapshot i st) \<le> i"
  by (simp add: step_snapshot_def)

lemma emitted_upd [simp]:
  "emitted (st\<lparr>lastSeq := a\<rparr>) = emitted st" "emitted (st\<lparr>dropCnt := b\<rparr>) = emitted st"
  "emitted (st\<lparr>execCnt := c\<rparr>) = emitted st" "emitted (st\<lparr>kerrCnt := d\<rparr>) = emitted st"
  "emitted (st\<lparr>hasLastUkey := e\<rparr>) = emitted st" "emitted (st\<lparr>lastUkey := f\<rparr>) = emitted st"
  by (simp_all add: emitted_def)

text \<open>Rule A on one step, with what the step leaves behind.\<close>

lemma build_step_ruleA:
  assumes "parseIkey env ikey = Inr (ukey, sq, kt)"
    and "hasLastUkey st"
    and "uCompare env (lastUkey st) ukey = 0"
    and "lastSeq st \<le> minSeq env"
    and "failAt flt AtStopFinish i = None"
  shows "\<exists>st'. build_step env flt i (ikey, v) st = Next st' \<and> emitted st' = emitted st
            \<and> dropCnt st' = dropCnt st + 1 \<and> lastSeq st' = sq \<and> hasLastUkey st'
            \<and> lastUkey st' = lastUkey st \<and> (snapIter st \<le> i \<longrightarrow> snapIter st' \<le> i)
            \<and> execCnt st' = execCnt st"
proof -
  obtain st1 where s1: "step_stopBefore env flt i ikey st = Inr st1"
    using step_stopBefore_no_fault [OF assms(5)] by blast
  let ?st2 = "step_snapshot i st1"
  have same: "hasLastUkey ?st2" "lastUkey ?st2 = lastUkey st" "lastSeq ?st2 = lastSeq st"
    "emitted ?st2 = emitted st" "dropCnt ?st2 = dropCnt st" "execCnt ?st2 = execCnt st"
    using step_stopBefore_Inr [OF s1] assms(2) by (simp_all add: step_snapshot_same)
  have tr: "step_track env ukey ?st2 = ?st2"
    using same assms(3) by (simp add: step_track_tracked)
  have "build_step env flt i (ikey, v) st
          = Next (?st2\<lparr>lastSeq := sq, dropCnt := dropCnt ?st2 + 1\<rparr>)"
    using build_step_drop [OF assms(1) s1, of v] assms(4) same(3) by (simp add: tr)
  moreover have "snapIter st \<le> i \<longrightarrow> snapIter ?st2 \<le> i"
    using step_stopBefore_Inr(7) [OF s1] by (simp add: step_snapshot_snapIter)
  ultimately show ?thesis
    using same by simp
qed

text \<open>
  C1 (as amended). In the full merge, a well-formed record whose user key compares equal to
  the tracked user key is dropped whenever the tracked \<open>lastSeq\<close> is at most \<open>minSeq\<close>:
  unless the table finish that \<open>shouldStopBefore\<close> may ask for first fails, the step ends
  with \<open>continue\<close>, nothing is appended to any output table, \<open>dropCnt\<close> is incremented and
  \<open>lastSeq\<close> becomes the record's sequence number.  In particular, merging
  \<open>[(a#5, v5), (a#3, v3)]\<close> with \<open>minSeq = 5\<close> emits only \<open>(a#5, v5)\<close> and yields
  \<open>dropCnt = 1\<close>.
\<close>

theorem tableBuild_ruleA:
  assumes "parseIkey env ikey = Inr (ukey, sq, kt)"
    and "hasLastUkey st"
    and "uCompare env (lastUkey st) ukey = 0"
    and "lastSeq st \<le> minSeq env"
    and "failAt flt AtStopFinish i = None"
  shows "(\<exists>st'. build_step env flt i (ikey, v) st = Next st' \<and> emitted st' = emitted st
            \<and> dropCnt st' = dropCnt st + 1 \<and> lastSeq st' = sq)
       \<and> (case tableBuild_exec (ex_env 5 False 1000 [(''a#5'', ''v5''), (''a#3'', ''v3'')])
                  noFaults (tableCompaction_init 10) of
            (r, c, st') \<Rightarrow> (r, map atEntries (addedTables st'), dropCnt st'))
          = (ExecReturn None, [[(''a#5'', ''v5'')]], 1)"
proof
  show "\<exists>st'. build_step env flt i (ikey, v) st = Next st' \<and> emitted st' = emitted st
            \<and> dropCnt st' = dropCnt st + 1 \<and> lastSeq st' = sq"
    using build_step_ruleA [OF assms, of v] by blast
next
  show "(case tableBuild_exec (ex_env 5 False 1000 [(''a#5'', ''v5''), (''a#3'', ''v3'')])
                  noFaults (tableCompaction_init 10) of
            (r, c, st') \<Rightarrow> (r, map atEntries (addedTables st'), dropCnt st'))
          = (ExecReturn None, [[(''a#5'', ''v5'')]], 1)"
    by code_simp
qed

theorem tableBuild_ruleA_witness:
  "\<exists>st'. build_step (ex_env 5 False 1000 []) noFaults 1 (''a#3'', ''v3'') ex_after_a5 = Next st'
      \<and> emitted st' = emitted ex_after_a5 \<and> dropCnt st' = dropCnt ex_after_a5 + 1
      \<and> lastSeq st' = 3"
  using tableBuild_ruleA [of "ex_env 5 False 1000 []" "''a#3''" "''a''" 3 ktVal ex_after_a5
          noFaults 1 "''v3''"]
  by (simp add: ex_env_def ex_parseIkey_def ex_after_a5_def tableCompaction_init_def
        noFaults_def)

theorem tableBuild_ruleA_minSeq0_counterexample:
  "(case tableBuild_exec (ex_env 0 False 1000 [(''a#5'', ''v5''), (''a#3'', ''v3'')])
            noFaults (tableCompaction_init 10) of
      (r, c, st') \<Rightarrow> (r, map atEntries (addedTables st'), dropCnt st'))
   = (ExecReturn None, [[(''a#5'', ''v5''), (''a#3'', ''v3'')]], 0)"
  by code_simp

subsection \<open>Corrupt keys\<close>

lemma step_create_ok:
  assumes "\<not> exitAt flt i" and "failAt flt AtCreate i = None"
  shows "\<exists>st1 w. step_create flt i st = Inr st1 \<and> tw st1 = Some w
           \<and> emitted st1 = emitted st \<and> kerrCnt st1 = kerrCnt st \<and> dropCnt st1 = dropCnt st
           \<and> hasLastUkey st1 = hasLastUkey st \<and> lastUkey st1 = lastUkey st
           \<and> lastSeq st1 = lastSeq st"
  using assms by (cases "tw st") (auto simp: step_create_def emitted_def)

lemma step_append_ok:
  assumes "failAt flt AtAppend i = None" and "failAt flt AtSizeFinish i = None"
    and "tw st = Some w"
  shows "\<exists>st'. step_append env flt i kv w st = Next st' \<and> emitted st' = emitted st @ [kv]
           \<and> kerrCnt st' = kerrCnt st \<and> dropCnt st' = dropCnt st
           \<and> hasLastUkey st' = hasLastUkey st \<and> lastUkey st' = lastUkey st
           \<and> lastSeq st' = lastSeq st"
  using assms by (auto simp: step_append_def finish_def emitted_def Let_def)

lemma step_write_ok:
  assumes "\<not> exitAt flt i" and "failAt flt AtCreate i = None"
    and "failAt flt AtAppend i = None" and "failAt flt AtSizeFinish i = None"
  shows "\<exists>st'. step_write env flt i kv st = Next st' \<and> emitted st' = emitted st @ [kv]
           \<and> kerrCnt st' = kerrCnt st \<and> dropCnt st' = dropCnt st
           \<and> hasLastUkey st' = hasLastUkey st \<and> lastUkey st' = lastUkey st
           \<and> lastSeq st' = lastSeq st"
proof -
  obtain st1 w where c: "step_create flt i st = Inr st1" "tw st1 = Some w"
    "emitted st1 = emitted st" "kerrCnt st1 = kerrCnt st" "dropCnt st1 = dropCnt st"
    "hasLastUkey st1 = hasLastUkey st" "lastUkey st1 = lastUkey st" "lastSeq st1 = lastSeq st"
    using step_create_ok [OF assms(1,2), of st] by blast
  from step_append_ok [OF assms(3,4) c(2), of env kv] c show ?thesis
    by (auto simp: step_write_def)
qed

text \<open>A record whose key does not parse, in one step of the loop.\<close>

lemma build_step_corrupt_key:
  assumes "parseIkey env ikey = Inl kerr"
  shows "(strict env \<longrightarrow>
            build_step env flt i (ikey, v) st = Stop (ExecReturn (Some kerr)) (step_snapshot i st)
          \<and> (failAt flt AtNext i = None \<and> snapIter st \<le> i \<longrightarrow>
               fst (build_loop env flt i ((ikey, v) # rest) st) = ExecReturn (Some kerr)))
       \<and> (\<not> strict env \<and> \<not> exitAt flt i \<and> failAt flt AtCreate i = None
            \<and> failAt flt AtAppend i = None \<and> failAt flt AtSizeFinish i = None \<longrightarrow>
            (\<exists>st'. build_step env flt i (ikey, v) st = Next st'
               \<and> emitted st' = emitted st @ [(ikey, v)]
               \<and> kerrCnt st' = kerrCnt st + 1 \<and> dropCnt st' = dropCnt st
               \<and> \<not> hasLastUkey st' \<and> lastUkey st' = [] \<and> lastSeq st' = kMaxSeq env
               \<and> (\<forall>ukey. step_track env ukey st'
                     = st'\<lparr>hasLastUkey := True, lastUkey := ukey, lastSeq := kMaxSeq env\<rparr>)))"
proof (intro conjI impI)
  assume "strict env"
  then show step: "build_step env flt i (ikey, v) st
                     = Stop (ExecReturn (Some kerr)) (step_snapshot i st)"
    using assms by (simp add: build_step_def step_stopBefore_kerr step_filter_def)
  assume "failAt flt AtNext i = None \<and> snapIter st \<le> i"
  moreover have "build_step env flt i (ikey, v) (st\<lparr>execCnt := execCnt st + 1\<rparr>)
                   = Stop (ExecReturn (Some kerr)) (step_snapshot i (st\<lparr>execCnt := execCnt st + 1\<rparr>))"
    using assms \<open>strict env\<close> by (simp add: build_step_def step_stopBefore_kerr step_filter_def)
  ultimately show "fst (build_loop env flt i ((ikey, v) # rest) st) = ExecReturn (Some kerr)"
    by simp
next
  assume h: "\<not> strict env \<and> \<not> exitAt flt i \<and> failAt flt AtCreate i = None
            \<and> failAt flt AtAppend i = None \<and> failAt flt AtSizeFinish i = None"
  let ?st2 = "(step_snapshot i st)\<lparr>hasLastUkey := False, lastUkey := [],
                 lastSeq := kMaxSeq env, kerrCnt := kerrCnt (step_snapshot i st) + 1\<rparr>"
  have hs: "\<not> strict env" "\<not> exitAt flt i" "failAt flt AtCreate i = None"
    "failAt flt AtAppend i = None" "failAt flt AtSizeFinish i = None"
    using h by simp_all
  have f: "step_filter env ikey (step_snapshot i st) = Keep ?st2"
    using assms hs(1) by (simp add: step_filter_def)
  obtain st' where w: "step_write env flt i (ikey, v) ?st2 = Next st'"
    "emitted st' = emitted ?st2 @ [(ikey, v)]" "kerrCnt st' = kerrCnt ?st2"
    "dropCnt st' = dropCnt ?st2" "hasLastUkey st' = hasLastUkey ?st2"
    "lastUkey st' = lastUkey ?st2" "lastSeq st' = lastSeq ?st2"
    using step_write_ok [OF hs(2-5), of env "(ikey, v)" ?st2] by blast
  have "build_step env flt i (ikey, v) st = Next st'"
    using assms f w(1) by (simp add: build_step_def step_stopBefore_kerr)
  moreover have "emitted st' = emitted st @ [(ikey, v)]"
    using w(2) by (simp add: step_snapshot_same)
  moreover have "kerrCnt st' = kerrCnt st + 1" "dropCnt st' = dropCnt st"
    "\<not> hasLastUkey st'" "lastUkey st' = []" "lastSeq st' = kMaxSeq env"
    using w by (simp_all add: step_snapshot_same)
  moreover have "\<forall>ukey. step_track env ukey st'
                   = st'\<lparr>hasLastUkey := True, lastUkey := ukey, lastSeq := kMaxSeq env\<rparr>"
    using \<open>\<not> hasLastUkey st'\<close> by (simp add: step_track_def)
  ultimately show "\<exists>st'. build_step env flt i (ikey, v) st = Next st'
               \<and> emitted st' = emitted st @ [(ikey, v)]
               \<and> kerrCnt st' = kerrCnt st + 1 \<and> dropCnt st' = dropCnt st
               \<and> \<not> hasLastUkey st' \<and> lastUkey st' = [] \<and> lastSeq st' = kMaxSeq env
               \<and> (\<forall>ukey. step_track env ukey st'
                     = st'\<lparr>hasLastUkey := True, lastUkey := ukey, lastSeq := kMaxSeq env\<rparr>)"
    by blast
qed

subsection \<open>Tombstones\<close>

lemma step_track_lastUkey:
  "lastUkey (step_track env ukey st) = ukey
   \<or> (hasLastUkey st \<and> uCompare env (lastUkey st) ukey = 0
       \<and> lastUkey (step_track env ukey st) = lastUkey st)"
  by (simp add: step_track_def)

lemma baseLevel_tracked:
  assumes "\<And>a b. uCompare env a b = 0 \<Longrightarrow> baseLevelForKey env a = baseLevelForKey env b"
  shows "baseLevelForKey env (lastUkey (step_track env ukey st)) = baseLevelForKey env ukey"
  using step_track_lastUkey [of env ukey st] assms by metis

lemma step_filter_Keep:
  assumes "\<And>a b. uCompare env a b = 0 \<Longrightarrow> baseLevelForKey env a = baseLevelForKey env b"
    and "step_filter env ikey st = Keep st'"
  shows "\<not> obsoleteTombstone env ikey" "emitted st' = emitted st"
proof -
  show "emitted st' = emitted st"
    using assms(2)
    by (auto simp: step_filter_def Let_def step_track_same split: sum.splits if_splits)
  show "\<not> obsoleteTombstone env ikey"
  proof (cases "parseIkey env ikey")
    case (Inl kerr)
    then show ?thesis by (simp add: obsoleteTombstone_def)
  next
    case (Inr p)
    obtain ukey sq kt where p: "p = (ukey, sq, kt)" by (cases p)
    have "\<not> (kt = ktDel \<and> sq \<le> minSeq env
              \<and> baseLevelForKey env (lastUkey (step_track env ukey st)))"
      using assms(2) Inr p by (auto simp: step_filter_def Let_def split: if_splits)
    then show ?thesis
      using Inr p baseLevel_tracked [OF assms(1), of ukey st]
      by (simp add: obsoleteTombstone_def)
  qed
qed

lemma step_filter_other:
  "step_filter env ikey st = Drop st' \<Longrightarrow> emitted st' = emitted st"
  "step_filter env ikey st = KeyError e st' \<Longrightarrow> st' = st"
  by (auto simp: step_filter_def Let_def step_track_same split: sum.splits if_splits)

lemma step_create_emitted:
  "step_create flt i st = Inr st1 \<Longrightarrow> emitted st1 = emitted st"
  by (auto simp: step_create_def emitted_def split: option.splits if_splits)

lemma step_append_emitted:
  "tw st = Some w \<Longrightarrow>
   set (emitted (flowState (step_append env flt i kv w st))) \<subseteq> insert kv (set (emitted st))"
  by (auto simp: step_append_def finish_def emitted_def Let_def split: option.splits)

lemma step_write_emitted:
  "set (emitted (flowState (step_write env flt i kv st))) \<subseteq> insert kv (set (emitted st))"
proof (cases "step_create flt i st")
  case (Inl r)
  then show ?thesis by (auto simp: step_write_def)
next
  case (Inr st1)
  show ?thesis
  proof (cases "tw st1")
    case None
    then show ?thesis using Inr step_create_emitted [OF Inr] by (auto simp: step_write_def)
  next
    case (Some w)
    then show ?thesis
      using Inr step_create_emitted [OF Inr] step_append_emitted [OF Some, of env flt i kv]
      by (simp add: step_write_def)
  qed
qed

lemma build_step_clean:
  assumes compat:
      "\<And>a b. uCompare env a b = 0 \<Longrightarrow> baseLevelForKey env a = baseLevelForKey env b"
    and "outputClean env st"
  shows "outputClean env (flowState (build_step env flt i kv st))"
proof (cases "step_stopBefore env flt i (fst kv) st")
  case (Inl e)
  then show ?thesis using assms(2) by (simp add: build_step_def)
next
  case (Inr st1)
  have e1: "emitted (step_snapshot i st1) = emitted st"
    using step_stopBefore_Inr(1) [OF Inr] by (simp add: step_snapshot_same)
  show ?thesis
  proof (cases "step_filter env (fst kv) (step_snapshot i st1)")
    case (Drop st2)
    then show ?thesis
      using Inr assms(2) e1 step_filter_other(1) [OF Drop]
      by (simp add: build_step_def outputClean_def)
  next
    case (KeyError kerr st2)
    then show ?thesis
      using Inr assms(2) e1 step_filter_other(2) [OF KeyError]
      by (simp add: build_step_def outputClean_def)
  next
    case (Keep st2)
    have k: "\<not> obsoleteTombstone env (fst kv)" "emitted st2 = emitted st"
      using step_filter_Keep [OF compat Keep] e1 by simp_all
    have "set (emitted (flowState (step_write env flt i kv st2))) \<subseteq> insert kv (set (emitted st))"
      using step_write_emitted [of env flt i kv st2] k(2) by simp
    then show ?thesis
      using Inr Keep assms(2) k(1) by (auto simp: build_step_def outputClean_def)
  qed
qed

lemma build_end_emitted: "emitted (snd (build_end env flt i st)) = emitted st"
  by (auto simp: build_end_def finish_def emitted_def split: option.splits)

lemma outputClean_execCnt [simp]:
  "outputClean env (st\<lparr>execCnt := c\<rparr>) = outputClean env st"
  by (simp add: outputClean_def)

lemma build_loop_clean:
  assumes compat:
      "\<And>a b. uCompare env a b = 0 \<Longrightarrow> baseLevelForKey env a = baseLevelForKey env b"
  shows "outputClean env st \<Longrightarrow> outputClean env (snd (build_loop env flt i rs st))"
proof (induction rs arbitrary: i st)
  case Nil
  then show ?case by (simp add: outputClean_def build_end_emitted)
next
  case (Cons kv rest)
  show ?case
  proof (cases "failAt flt AtNext i")
    case (Some e)
    then show ?thesis using Cons.prems by simp
  next
    case None
    let ?st1 = "st\<lparr>execCnt := execCnt st + 1\<rparr>"
    have c1: "outputClean env ?st1" using Cons.prems by simp
    show ?thesis
    proof (cases "i < snapIter ?st1")
      case True
      then show ?thesis using None Cons.IH [OF c1, of "i + 1"] by (simp add: Let_def)
    next
      case False
      have c2: "outputClean env (flowState (build_step env flt i kv ?st1))"
        by (rule build_step_clean [OF compat c1])
      show ?thesis
      proof (cases "build_step env flt i kv ?st1")
        case (Next st2)
        then show ?thesis
          using None False c2 Cons.IH [of st2 "i + 1"] by (simp add: Let_def)
      next
        case (Stop r st2)
        then show ?thesis using None False c2 by (simp add: Let_def)
      qed
    qed
  qed
qed

lemma emitted_tw_None: "set (emitted (st\<lparr>tw := None\<rparr>)) \<subseteq> set (emitted st)"
  by (auto simp: emitted_def)

lemma tableBuild_exec_clean:
  assumes compat:
      "\<And>a b. uCompare env a b = 0 \<Longrightarrow> baseLevelForKey env a = baseLevelForKey env b"
    and "outputClean env st"
  shows "outputClean env (snd (snd (tableBuild_exec env flt st)))"
proof -
  let ?st0 = "st\<lparr>hasLastUkey := snapHasLastUkey st, lastUkey := snapLastUkey st,
                 lastSeq := snapLastSeq st, kerrCnt := snapKerrCnt st,
                 dropCnt := snapDropCnt st, snapSched := (snapIter st = 0), tw := None,
                 execCnt := 0\<rparr>"
  have "set (emitted ?st0) \<subseteq> set (emitted st)" by (auto simp: emitted_def)
  then have "outputClean env ?st0" using assms(2) by (auto simp: outputClean_def)
  then have "outputClean env (snd (build_loop env flt 0 (cRecords env) ?st0))"
    using build_loop_clean [OF compat] by blast
  then show ?thesis
    using emitted_tw_None [of "snd (build_loop env flt 0 (cRecords env) ?st0)"]
    by (auto simp: tableBuild_exec_def outputClean_def split: prod.splits)
qed

subsection \<open>Invariants of the retry runner\<close>

lemma transact_round_inv:
  assumes "P s" and "\<And>x s. P s \<Longrightarrow> P (snd (snd (exec x s)))"
  shows "P (snd (snd (transact_round isCorrupted disableBackoff exec ob tv s)))"
proof (cases "obsIsClosed ob")
  case True
  then show ?thesis using assms(1) by (simp add: transact_round_def)
next
  case False
  have "P (snd (snd (exec (obsExec ob) s)))" by (rule assms(2) [OF assms(1)])
  then show ?thesis
    using False
    by (auto simp: transact_round_def Let_def split: prod.splits execResult.splits)
qed

lemma transact_loop_inv:
  assumes "\<And>x s. P s \<Longrightarrow> P (snd (snd (exec x s)))"
  shows "P s \<Longrightarrow> transact_loop isCorrupted disableBackoff exec obs tv s = Some (r, tv', s')
           \<Longrightarrow> P s'"
proof (induction obs arbitrary: tv s)
  case Nil
  then show ?case by simp
next
  case (Cons ob obs)
  obtain r1 tv1 s1 where rd:
    "transact_round isCorrupted disableBackoff exec ob tv s = (r1, tv1, s1)"
    by (cases "transact_round isCorrupted disableBackoff exec ob tv s") auto
  have p1: "P s1"
    using transact_round_inv [of P s exec isCorrupted disableBackoff ob tv, OF Cons.prems(1) assms]
      rd by simp
  show ?case
  proof (cases r1)
    case NextRound
    then show ?thesis using Cons.IH [OF p1] Cons.prems(2) rd by simp
  next
    case Returned
    then show ?thesis using Cons.prems(2) rd p1 by simp
  next
    case (Panicked x)
    then show ?thesis using Cons.prems(2) rd p1 by simp
  qed
qed

lemma transact_deferred_Returned:
  "transact_deferred rollback res = (Returned, tv, s) \<Longrightarrow> res = (Returned, tv, s)"
  by (auto simp: transact_deferred_def split: prod.splits roundEnd.splits if_splits
        option.splits)

text \<open>
  C2. In the full merge a well-formed deletion record at or below \<open>minSeq\<close> whose user key
  passes \<open>baseLevelForKey\<close> is dropped (unless the table finish that \<open>shouldStopBefore\<close> may
  ask for first fails), whatever the tracking state; and when \<open>table@build\<close> returns, after
  any number of failed rounds, no table it has staged holds such a record.  The code asks
  \<open>baseLevelForKey\<close> about the tracked key, which compares equal to the record's user key;
  the predicate is taken to agree on keys the comparator calls equal.
\<close>

theorem tableBuild_ruleB:
  assumes "\<And>a b. uCompare env a b = 0 \<Longrightarrow> baseLevelForKey env a = baseLevelForKey env b"
  shows "(parseIkey env ikey = Inr (ukey, sq, ktDel) \<and> sq \<le> minSeq env
            \<and> baseLevelForKey env ukey \<and> failAt flt AtStopFinish i = None \<longrightarrow>
            (\<exists>st'. build_step env flt i (ikey, v) st = Next st' \<and> emitted st' = emitted st
               \<and> dropCnt st' = dropCnt st + 1))
       \<and> (tableBuild_transact isCorrupted disableBackoff env removeErr obs
              (tableCompaction_init fileNum) = Some (Returned, tv, st') \<longrightarrow>
            (\<forall>t \<in> set (addedTables st'). \<forall>kv \<in> set (atEntries t).
               \<not> obsoleteTombstone env (fst kv)))"
proof (intro conjI impI)
  assume h: "parseIkey env ikey = Inr (ukey, sq, ktDel) \<and> sq \<le> minSeq env
            \<and> baseLevelForKey env ukey \<and> failAt flt AtStopFinish i = None"
  then obtain st1 where s1: "step_stopBefore env flt i ikey st = Inr st1"
    using step_stopBefore_no_fault [of flt i env ikey st] by blast
  let ?st3 = "step_track env ukey (step_snapshot i st1)"
  have "baseLevelForKey env (lastUkey ?st3)"
    using baseLevel_tracked [OF assms, of ukey "step_snapshot i st1"] h by simp
  then have "build_step env flt i (ikey, v) st
               = Next (?st3\<lparr>lastSeq := sq, dropCnt := dropCnt ?st3 + 1\<rparr>)"
    using build_step_drop [of env ikey ukey sq ktDel flt i st st1 v] h s1 by simp
  moreover have "emitted ?st3 = emitted st" "dropCnt ?st3 = dropCnt st"
    using step_stopBefore_Inr [OF s1] by (simp_all add: step_track_same step_snapshot_same)
  ultimately show "\<exists>st'. build_step env flt i (ikey, v) st = Next st'
      \<and> emitted st' = emitted st \<and> dropCnt st' = dropCnt st + 1"
    by simp
next
  assume "tableBuild_transact isCorrupted disableBackoff env removeErr obs
            (tableCompaction_init fileNum) = Some (Returned, tv, st')"
  then obtain res where
    l: "transact_loop isCorrupted disableBackoff (tableBuild_exec env) obs transact_init
          (tableCompaction_init fileNum) = Some res"
    and d: "transact_deferred (Some (tableBuild_rollback removeErr)) res = (Returned, tv, st')"
    by (auto simp: tableBuild_transact_def compactionTransact_def)
  have l': "transact_loop isCorrupted disableBackoff (tableBuild_exec env) obs transact_init
          (tableCompaction_init fileNum) = Some (Returned, tv, st')"
    using l transact_deferred_Returned [OF d] by simp
  have "outputClean env (tableCompaction_init fileNum)"
    by (simp add: outputClean_def emitted_def tableCompaction_init_def)
  then have "outputClean env st'"
    using transact_loop_inv [of "outputClean env" "tableBuild_exec env", OF _ _ l']
      tableBuild_exec_clean [OF assms]
    by blast
  then show "\<forall>t \<in> set (addedTables st'). \<forall>kv \<in> set (atEntries t).
               \<not> obsoleteTombstone env (fst kv)"
    by (auto simp: outputClean_def emitted_def)
qed

theorem tableBuild_ruleB_witness:
  "(\<exists>st'. build_step (ex_env 5 False 1000 []) noFaults 0 (''a#2D'', [])
            (tableCompaction_init 10) = Next st'
       \<and> emitted st' = emitted (tableCompaction_init 10)
       \<and> dropCnt st' = dropCnt (tableCompaction_init 10) + 1)
   \<and> (\<exists>tv st'. tableBuild_transact (\<lambda>e. e = ''corrupted key'') False
                  (ex_env 5 False 1000 [(''a#2D'', []), (''b#4'', ''v4'')]) (\<lambda>n. None)
                  [ex_round noFaults] (tableCompaction_init 10) = Some (Returned, tv, st')
        \<and> map atEntries (addedTables st') = [[(''b#4'', ''v4'')]]
        \<and> (\<forall>t \<in> set (addedTables st'). \<forall>kv \<in> set (atEntries t).
              \<not> obsoleteTombstone (ex_env 5 False 1000 [(''a#2D'', []), (''b#4'', ''v4'')])
                   (fst kv)))"
proof
  have compat: "\<And>q recs a b. uCompare (ex_env q False 1000 recs) a b = 0 \<Longrightarrow>
      baseLevelForKey (ex_env q False 1000 recs) a = baseLevelForKey (ex_env q False 1000 recs) b"
    by (simp add: ex_env_def)
  show "\<exists>st'. build_step (ex_env 5 False 1000 []) noFaults 0 (''a#2D'', [])
            (tableCompaction_init 10) = Next st'
       \<and> emitted st' = emitted (tableCompaction_init 10)
       \<and> dropCnt st' = dropCnt (tableCompaction_init 10) + 1"
    using tableBuild_ruleB
            [where env = "ex_env 5 False 1000 []" and ikey = "''a#2D''" and ukey = "''a''"
               and sq = 2 and flt = noFaults and i = 0 and v = "[]"
               and st = "tableCompaction_init 10", OF compat]
    by (simp add: ex_env_def ex_parseIkey_def noFaults_def)
  let ?R = "tableBuild_transact (\<lambda>e. e = ''corrupted key'') False
              (ex_env 5 False 1000 [(''a#2D'', []), (''b#4'', ''v4'')]) (\<lambda>n. None)
              [ex_round noFaults] (tableCompaction_init 10)"
  have "map_option (\<lambda>(r, tv, st'). (r, map atEntries (addedTables st'))) ?R
          = Some (Returned, [[(''b#4'', ''v4'')]])"
    by code_simp
  then obtain tv st' where R: "?R = Some (Returned, tv, st')"
    and out: "map atEntries (addedTables st') = [[(''b#4'', ''v4'')]]"
    by (cases ?R) auto
  have clean: "\<forall>t \<in> set (addedTables st'). \<forall>kv \<in> set (atEntries t).
          \<not> obsoleteTombstone (ex_env 5 False 1000 [(''a#2D'', []), (''b#4'', ''v4'')]) (fst kv)"
    using tableBuild_ruleB
            [where env = "ex_env 5 False 1000 [(''a#2D'', []), (''b#4'', ''v4'')]"
               and isCorrupted = "\<lambda>e. e = ''corrupted key''" and disableBackoff = False
               and removeErr = "\<lambda>n. None" and obs = "[ex_round noFaults]" and fileNum = 10
               and tv = tv and st' = st', OF compat]
      R by blast
  show "\<exists>tv st'. ?R = Some (Returned, tv, st')
        \<and> map atEntries (addedTables st') = [[(''b#4'', ''v4'')]]
        \<and> (\<forall>t \<in> set (addedTables st'). \<forall>kv \<in> set (atEntries t).
              \<not> obsoleteTombstone (ex_env 5 False 1000 [(''a#2D'', []), (''b#4'', ''v4'')])
                   (fst kv))"
  proof (intro exI conjI)
    show "?R = Some (Returned, tv, st')" by (rule R)
    show "map atEntries (addedTables st') = [[(''b#4'', ''v4'')]]" by (rule out)
    show "\<forall>t \<in> set (addedTables st'). \<forall>kv \<in> set (atEntries t).
            \<not> obsoleteTombstone (ex_env 5 False 1000 [(''a#2D'', []), (''b#4'', ''v4'')])
                 (fst kv)"
      by (rule clean)
  qed
qed

subsection \<open>A dropped record and the records after it\<close>

lemma step_write_dropCnt:
  "step_write env flt i kv st = Next st' \<Longrightarrow> dropCnt st' = dropCnt st"
  by (auto simp: step_write_def step_create_def step_append_def finish_def Let_def
           split: sum.splits option.splits if_splits)

lemma build_step_dropped:
  assumes "parseIkey env ikey = Inr (ukey, sq, kt)"
    and "build_step env flt i (ikey, v) st = Next st0"
    and "dropCnt st0 = dropCnt st + 1"
  shows "\<exists>st1. step_stopBefore env flt i ikey st = Inr st1
           \<and> st0 = (step_track env ukey (step_snapshot i st1))
                     \<lparr>lastSeq := sq,
                      dropCnt := dropCnt (step_track env ukey (step_snapshot i st1)) + 1\<rparr>
           \<and> (lastSeq (step_track env ukey (step_snapshot i st1)) \<le> minSeq env \<or> sq \<le> minSeq env)"
proof (cases "step_stopBefore env flt i ikey st")
  case (Inl e)
  then show ?thesis using assms(2) by (simp add: build_step_def)
next
  case (Inr st1)
  let ?st3 = "step_track env ukey (step_snapshot i st1)"
  have d3: "dropCnt ?st3 = dropCnt st"
    using step_stopBefore_Inr(2) [OF Inr] by (simp add: step_track_same step_snapshot_same)
  show ?thesis
  proof (cases "lastSeq ?st3 \<le> minSeq env
                \<or> (kt = ktDel \<and> sq \<le> minSeq env \<and> baseLevelForKey env (lastUkey ?st3))")
    case True
    then have "build_step env flt i (ikey, v) st
                 = Next (?st3\<lparr>lastSeq := sq, dropCnt := dropCnt ?st3 + 1\<rparr>)"
      using build_step_drop [OF assms(1) Inr, of v] by simp
    then show ?thesis using assms(2) Inr True by auto
  next
    case False
    then have "step_write env flt i (ikey, v) (?st3\<lparr>lastSeq := sq\<rparr>) = Next st0"
      using assms(1,2) Inr
      by (auto simp: build_step_def step_filter_def Let_def split: if_splits)
    then have "dropCnt st0 = dropCnt st"
      using step_write_dropCnt d3 by fastforce
    then show ?thesis using assms(3) by simp
  qed
qed

lemma build_prefix_dropped_run:
  assumes nofault: "\<forall>j. failAt flt AtNext j = None \<and> failAt flt AtStopFinish j = None"
  shows "hasLastUkey st \<Longrightarrow> lastSeq st \<le> minSeq env \<Longrightarrow> snapIter st \<le> i \<Longrightarrow>
     \<forall>kv \<in> set rs. \<exists>uk sq kt. parseIkey env (fst kv) = Inr (uk, sq, kt)
                      \<and> uCompare env (lastUkey st) uk = 0 \<Longrightarrow>
     sorted_wrt (\<ge>) (lastSeq st # map (ikeySeq env \<circ> fst) rs) \<Longrightarrow>
     \<exists>st'. build_prefix env flt i rs st = Next st' \<and> emitted st' = emitted st
        \<and> dropCnt st' = dropCnt st + int (length rs) \<and> lastSeq st' \<le> minSeq env
        \<and> lastUkey st' = lastUkey st \<and> hasLastUkey st'"
proof (induction rs arbitrary: i st)
  case Nil
  then show ?case by simp
next
  case (Cons kv rest)
  obtain ikey v where kv: "kv = (ikey, v)" by (cases kv)
  obtain uk sq kt where p: "parseIkey env ikey = Inr (uk, sq, kt)"
    and u: "uCompare env (lastUkey st) uk = 0"
    using Cons.prems(4) kv by auto
  let ?st1 = "st\<lparr>execCnt := execCnt st + 1\<rparr>"
  have sq: "ikeySeq env ikey = sq" using p by (simp add: ikeySeq_def)
  have le: "sq \<le> lastSeq st" using Cons.prems(5) kv sq by simp
  obtain st2 where s2: "build_step env flt i (ikey, v) ?st1 = Next st2"
    "emitted st2 = emitted st" "dropCnt st2 = dropCnt st + 1" "lastSeq st2 = sq"
    "hasLastUkey st2" "lastUkey st2 = lastUkey st" "snapIter st2 \<le> i"
    using build_step_ruleA [of env ikey uk sq kt ?st1 flt i v] p u Cons.prems(1,2,3) nofault
    by auto
  have sorted': "sorted_wrt (\<ge>) (lastSeq st2 # map (ikeySeq env \<circ> fst) rest)"
    using Cons.prems(5) kv sq s2(4) by (auto simp: comp_def)
  have run': "\<forall>kv \<in> set rest. \<exists>uk sq kt. parseIkey env (fst kv) = Inr (uk, sq, kt)
                      \<and> uCompare env (lastUkey st2) uk = 0"
    using Cons.prems(4) s2(6) by simp
  have le2: "lastSeq st2 \<le> minSeq env" using le s2(4) Cons.prems(2) by simp
  have "snapIter st2 \<le> i + 1" using s2(7) by simp
  from Cons.IH [OF s2(5) le2 this run' sorted']
  obtain st' where r: "build_prefix env flt (i + 1) rest st2 = Next st'"
    "emitted st' = emitted st2" "dropCnt st' = dropCnt st2 + int (length rest)"
    "lastSeq st' \<le> minSeq env" "lastUkey st' = lastUkey st2" "hasLastUkey st'"
    by blast
  have "build_prefix env flt i (kv # rest) st = Next st'"
    using nofault Cons.prems(3) s2(1) r(1) kv by (simp add: Let_def)
  then show ?case using r s2 by simp
qed

lemma build_loop_prefix:
  "build_loop env flt i (rs @ rest) st
     = (case build_prefix env flt i rs st of
          Next st' \<Rightarrow> build_loop env flt (i + length rs) rest st'
        | Stop r st' \<Rightarrow> (r, st'))"
proof (induction rs arbitrary: i st)
  case Nil
  then show ?case by simp
next
  case (Cons kv rs)
  show ?case
    using Cons.IH [of "i + 1"]
    by (simp add: Let_def split: option.splits flow.splits)
qed

text \<open>
  C10 (as amended). In the full merge, a well-formed record that is dropped leaves
  \<open>lastSeq\<close> at its own sequence number.  If the records that follow it directly are
  well-formed, have the same user key (they compare equal to the tracked key) and come in
  descending sequence order, below the sequence the dropped record was compared with, then
  \<open>lastSeq\<close> stays at or below \<open>minSeq\<close> and every one of them is dropped as well: the
  loop passes them all, nothing is appended to the output and \<open>dropCnt\<close> grows by their
  number.  (The iterator and the table finish that \<open>shouldStopBefore\<close> may ask for are
  taken not to fail in between.)  A record whose key does not parse ends such a run: it
  resets the tracking, and a record of the same user key after it is taken as a first
  occurrence.
\<close>

theorem tableBuild_drop_propagates:
  assumes "parseIkey env k0 = Inr (uk0, sq0, kt0)"
    and "build_step env flt i (k0, v0) st = Next st0"
    and "dropCnt st0 = dropCnt st + 1"
    and "snapIter st \<le> i"
    and "sq0 \<le> (if hasLastUkey st \<and> uCompare env (lastUkey st) uk0 = 0
                then lastSeq st else kMaxSeq env)"
    and "\<forall>kv \<in> set rs. \<exists>uk sq kt. parseIkey env (fst kv) = Inr (uk, sq, kt)
                       \<and> uCompare env (lastUkey st0) uk = 0"
    and "sorted_wrt (\<ge>) (sq0 # map (ikeySeq env \<circ> fst) rs)"
    and "\<forall>j. failAt flt AtNext j = None \<and> failAt flt AtStopFinish j = None"
  shows "lastSeq st0 = sq0 \<and> lastSeq st0 \<le> minSeq env
       \<and> (\<exists>st'. build_prefix env flt (i + 1) rs st0 = Next st'
             \<and> build_loop env flt (i + 1) (rs @ rest) st0
                 = build_loop env flt (i + 1 + length rs) rest st'
             \<and> emitted st' = emitted st0
             \<and> dropCnt st' = dropCnt st0 + int (length rs)
             \<and> lastSeq st' \<le> minSeq env)"
proof -
  obtain st1 where s1: "step_stopBefore env flt i k0 st = Inr st1"
    and st0: "st0 = (step_track env uk0 (step_snapshot i st1))
                     \<lparr>lastSeq := sq0,
                      dropCnt := dropCnt (step_track env uk0 (step_snapshot i st1)) + 1\<rparr>"
    and c: "lastSeq (step_track env uk0 (step_snapshot i st1)) \<le> minSeq env \<or> sq0 \<le> minSeq env"
    using build_step_dropped [OF assms(1,2,3)] by blast
  have same: "hasLastUkey (step_snapshot i st1) = hasLastUkey st"
    "lastUkey (step_snapshot i st1) = lastUkey st" "lastSeq (step_snapshot i st1) = lastSeq st"
    using step_stopBefore_Inr [OF s1] by (simp_all add: step_snapshot_same)
  have ls: "lastSeq (step_track env uk0 (step_snapshot i st1))
              = (if hasLastUkey st \<and> uCompare env (lastUkey st) uk0 = 0
                 then lastSeq st else kMaxSeq env)"
    using same by (simp add: step_track_def)
  have l0: "lastSeq st0 = sq0" using st0 by simp
  have le0: "sq0 \<le> minSeq env" using c ls assms(5) by auto
  have h0: "hasLastUkey st0" using st0 by (simp add: step_track_same)
  have "snapIter (step_snapshot i st1) \<le> i"
    using step_stopBefore_Inr(7) [OF s1] assms(4) by (simp add: step_snapshot_snapIter)
  then have i0: "snapIter st0 \<le> i + 1" using st0 by (simp add: step_track_same)
  have sorted0: "sorted_wrt (\<ge>) (lastSeq st0 # map (ikeySeq env \<circ> fst) rs)"
    using assms(7) l0 by simp
  have le0': "lastSeq st0 \<le> minSeq env" using l0 le0 by simp
  obtain st' where r: "build_prefix env flt (i + 1) rs st0 = Next st'"
    "emitted st' = emitted st0" "dropCnt st' = dropCnt st0 + int (length rs)"
    "lastSeq st' \<le> minSeq env"
    using build_prefix_dropped_run [OF assms(8) h0 le0' i0 assms(6) sorted0] by blast
  have "build_loop env flt (i + 1) (rs @ rest) st0
          = build_loop env flt (i + 1 + length rs) rest st'"
    using build_loop_prefix [of env flt "i + 1" rs rest st0] r(1) by simp
  then show ?thesis using l0 le0 r by blast
qed

theorem tableBuild_drop_propagates_witness:
  "\<exists>st0. build_step (ex_env 5 False 1000 []) noFaults 1 (''a#3'', ''v3'') ex_after_a5 = Next st0
      \<and> lastSeq st0 = 3
      \<and> (\<exists>st'. build_prefix (ex_env 5 False 1000 []) noFaults (1 + 1) [(''a#2D'', [])] st0
              = Next st'
            \<and> emitted st' = emitted st0
            \<and> dropCnt st' = dropCnt st0 + int (length [(''a#2D'', [] :: bytes)])
            \<and> lastSeq st' \<le> minSeq (ex_env 5 False 1000 []))"
proof -
  let ?env = "ex_env 5 False 1000 []"
  have p0: "parseIkey ?env ''a#3'' = Inr (''a'', 3, ktVal)"
    by (simp add: ex_env_def ex_parseIkey_def)
  have nf: "\<forall>j. failAt (noFaults :: string execFaults) AtNext j = None
              \<and> failAt (noFaults :: string execFaults) AtStopFinish j = None"
    by (simp add: noFaults_def)
  obtain st0 where s0: "build_step ?env noFaults 1 (''a#3'', ''v3'') ex_after_a5 = Next st0"
    and d0: "dropCnt st0 = dropCnt ex_after_a5 + 1"
    and u0: "lastUkey st0 = lastUkey ex_after_a5"
    using build_step_ruleA [of ?env "''a#3''" "''a''" 3 ktVal ex_after_a5 noFaults 1 "''v3''"]
    by (auto simp: ex_env_def ex_parseIkey_def ex_after_a5_def tableCompaction_init_def
          noFaults_def)
  have i0: "snapIter ex_after_a5 \<le> 1"
    by (simp add: ex_after_a5_def tableCompaction_init_def)
  have le: "(3 :: 64 word) \<le> (if hasLastUkey ex_after_a5
                \<and> uCompare ?env (lastUkey ex_after_a5) ''a'' = 0
              then lastSeq ex_after_a5 else kMaxSeq ?env)"
    by (simp add: ex_env_def ex_after_a5_def tableCompaction_init_def)
  have run: "\<forall>kv \<in> set [(''a#2D'', [])]. \<exists>uk sq kt. parseIkey ?env (fst kv) = Inr (uk, sq, kt)
               \<and> uCompare ?env (lastUkey st0) uk = 0"
    using u0 by (simp add: ex_env_def ex_parseIkey_def ex_after_a5_def tableCompaction_init_def)
  have srt: "sorted_wrt (\<ge>) ((3 :: 64 word) # map (ikeySeq ?env \<circ> fst) [(''a#2D'', [])])"
    by (simp add: ikeySeq_def ex_env_def ex_parseIkey_def)
  show ?thesis
    using tableBuild_drop_propagates [OF p0 s0 d0 i0 le run srt nf, of "[]"] s0
    by blast
qed

text \<open>
  A deletion of \<open>a\<close> at sequence 7, a record whose key does not parse, then a value of
  \<open>a\<close> at sequence 5, merged at \<open>minSeq = 7\<close> in non-strict mode: the deletion is dropped
  by Rule B, the ill-formed record is kept and resets the tracking, and the later record of
  the same user key is kept.
\<close>

theorem tableBuild_drop_interrupted_counterexample:
  "(case tableBuild_exec
           (ex_env 7 False 1000 [(''a#7D'', []), (''zz'', ''v''), (''a#5'', ''v5'')])
           noFaults (tableCompaction_init 10) of
      (r, c, st') \<Rightarrow> (r, map atEntries (addedTables st'), dropCnt st', kerrCnt st'))
   = (ExecReturn None, [[(''zz'', ''v''), (''a#5'', ''v5'')]], 1, 1)"
  by code_simp

subsection \<open>A corrupt key fails the transact\<close>

lemma tableBuild_exec_start:
  "tableBuild_exec env flt st
     = (case build_loop env flt 0 (cRecords env) (tableBuild_start st) of
          (r, st1) \<Rightarrow> (r, execCnt st1, st1\<lparr>tw := None\<rparr>))"
  by (simp add: tableBuild_exec_def tableBuild_start_def)

lemma step_write_snapIter:
  "step_write env flt i kv st = Next st' \<Longrightarrow> snapIter st' = snapIter st"
  by (auto simp: step_write_def step_create_def step_append_def finish_def Let_def
           split: sum.splits option.splits if_splits)

lemma step_filter_snapIter:
  "step_filter env ikey st = Drop st' \<Longrightarrow> snapIter st' = snapIter st"
  "step_filter env ikey st = Keep st' \<Longrightarrow> snapIter st' = snapIter st"
  by (auto simp: step_filter_def Let_def step_track_same split: sum.splits if_splits)

lemma step_snapshot_snapIter_max: "snapIter (step_snapshot i st) \<le> max (snapIter st) i"
  by (simp add: step_snapshot_def)

lemma build_step_snapIter:
  assumes "build_step env flt i kv st = Next st'"
  shows "snapIter st' \<le> max (snapIter st) i"
proof (cases "step_stopBefore env flt i (fst kv) st")
  case (Inl e)
  then show ?thesis using assms by (simp add: build_step_def)
next
  case (Inr st1)
  have s1: "snapIter (step_snapshot i st1) \<le> max (snapIter st) i"
    using step_snapshot_snapIter_max [of i st1] step_stopBefore_Inr(7) [OF Inr] by simp
  show ?thesis
  proof (cases "step_filter env (fst kv) (step_snapshot i st1)")
    case (Drop st2)
    then show ?thesis
      using assms Inr s1 step_filter_snapIter(1) [OF Drop] by (simp add: build_step_def)
  next
    case (Keep st2)
    then have "step_write env flt i kv st2 = Next st'"
      using assms Inr by (simp add: build_step_def)
    then show ?thesis
      using s1 step_filter_snapIter(2) [OF Keep] step_write_snapIter by fastforce
  next
    case (KeyError kerr st2)
    then show ?thesis using assms Inr by (simp add: build_step_def)
  qed
qed

lemma build_prefix_snapIter:
  "build_prefix env flt i rs st = Next st' \<Longrightarrow> snapIter st \<le> i + length rs \<Longrightarrow>
   snapIter st' \<le> i + length rs"
proof (induction rs arbitrary: i st)
  case Nil
  then show ?case by simp
next
  case (Cons kv rs)
  let ?st1 = "st\<lparr>execCnt := execCnt st + 1\<rparr>"
  from Cons.prems(1) have nf: "failAt flt AtNext i = None"
    by (auto split: option.splits)
  show ?case
  proof (cases "i < snapIter ?st1")
    case True
    then have "build_prefix env flt (i + 1) rs ?st1 = Next st'"
      using Cons.prems(1) nf by (simp add: Let_def)
    from Cons.IH [OF this] Cons.prems(2) show ?thesis by simp
  next
    case False
    then obtain st2 where s2: "build_step env flt i kv ?st1 = Next st2"
      and r: "build_prefix env flt (i + 1) rs st2 = Next st'"
      using Cons.prems(1) nf by (auto simp: Let_def split: flow.splits)
    have "snapIter st2 \<le> i" using build_step_snapIter [OF s2] False by simp
    then show ?thesis using Cons.IH [OF r] by simp
  qed
qed

lemma transact_publish_error:
  "fst (transact_publish isCorrupted disableBackoff pub closeC (Some e) c tv) \<noteq> Returned"
  "isCorrupted e \<Longrightarrow>
     fst (transact_publish isCorrupted disableBackoff pub closeC (Some e) c tv)
       = Panicked errCompactionTransactExiting"
  by (auto simp: transact_publish_def transact_backoff_def Let_def split: publishCase.splits)

lemma transact_round_error:
  assumes "fst (exec (obsExec ob) s) = ExecReturn (Some e)"
  shows "fst (transact_round isCorrupted disableBackoff exec ob tv s) \<noteq> Returned"
    and "isCorrupted e \<Longrightarrow>
           fst (transact_round isCorrupted disableBackoff exec ob tv s)
             = Panicked errCompactionTransactExiting"
proof -
  obtain c s' where ex: "exec (obsExec ob) s = (ExecReturn (Some e), c, s')"
    using assms by (cases "exec (obsExec ob) s") auto
  let ?tv1 = "if tvN tv > 0 then logf (LogRetrying (tvN tv)) tv else tv"
  let ?P = "transact_publish isCorrupted disableBackoff (obsPublish ob) (obsBackoffCloseC ob)
              (Some e) c ?tv1"
  have r: "fst (transact_round isCorrupted disableBackoff exec ob tv s)
             = (if obsIsClosed ob then Panicked errCompactionTransactExiting else fst ?P)"
    using ex by (simp add: transact_round_def Let_def split: prod.splits)
  show "fst (transact_round isCorrupted disableBackoff exec ob tv s) \<noteq> Returned"
    unfolding r using transact_publish_error(1) [of isCorrupted disableBackoff
        "obsPublish ob" "obsBackoffCloseC ob" e c ?tv1]
    by simp
  show "isCorrupted e \<Longrightarrow>
           fst (transact_round isCorrupted disableBackoff exec ob tv s)
             = Panicked errCompactionTransactExiting"
    unfolding r using transact_publish_error(2) [of isCorrupted e disableBackoff
        "obsPublish ob" "obsBackoffCloseC ob" c ?tv1]
    by simp
qed

lemma compactionTransact_first_round_panics:
  assumes "fst (transact_round isCorrupted disableBackoff exec ob transact_init s)
             = Panicked errCompactionTransactExiting"
  shows "\<exists>tv' s'. compactionTransact isCorrupted disableBackoff exec rollback (ob # obs) s
           = Some (Panicked errCompactionTransactExiting, tv', s')"
proof -
  obtain tv1 s1 where
    r: "transact_round isCorrupted disableBackoff exec ob transact_init s
          = (Panicked errCompactionTransactExiting, tv1, s1)"
    using assms
    by (cases "transact_round isCorrupted disableBackoff exec ob transact_init s") auto
  then have "transact_loop isCorrupted disableBackoff exec (ob # obs) transact_init s
               = Some (Panicked errCompactionTransactExiting, tv1, s1)"
    by simp
  then show ?thesis
    by (auto simp: compactionTransact_def transact_deferred_def
             split: option.splits prod.splits)
qed

text \<open>
  C9. In the full merge, for a record whose internal key does not parse.  In strict mode
  the step stops with the parse error; when a run of \<open>exec\<close> reaches the record (the
  records before it are passed and no earlier attempt has put the snapshot beyond it),
  \<open>exec\<close> returns the parse error, the round of the runner does not return, and, the parse
  error being a corruption error, the runner leaves through the sentinel: the transact
  fails.  Otherwise, when creating a table and appending to it succeed, the record is
  appended as it is to the output, \<open>kerrCnt\<close> is incremented, nothing is counted as
  dropped, and the tracking state is reset to \<open>(false, empty, kMaxSeq)\<close>, so that whatever
  user key comes next is taken as the first occurrence of a new user key.
\<close>

theorem tableBuild_corrupt_key:
  assumes "parseIkey env ikey = Inl kerr"
  shows "(strict env \<longrightarrow>
            build_step env flt i (ikey, v) st = Stop (ExecReturn (Some kerr)) (step_snapshot i st)
          \<and> (failAt flt AtNext i = None \<and> snapIter st \<le> i \<longrightarrow>
               fst (build_loop env flt i ((ikey, v) # rest) st) = ExecReturn (Some kerr)))
       \<and> (strict env \<and> cRecords env = pre @ (ikey, v) # rest
            \<and> build_prefix env flt 0 pre (tableBuild_start sInit) = Next sAt
            \<and> snapIter sInit \<le> length pre \<and> failAt flt AtNext (length pre) = None \<longrightarrow>
            fst (tableBuild_exec env flt sInit) = ExecReturn (Some kerr)
          \<and> (\<forall>ob tv. obsExec ob = flt \<and> \<not> obsIsClosed ob \<longrightarrow>
                fst (transact_round isCorrupted disableBackoff (tableBuild_exec env) ob tv sInit)
                  \<noteq> Returned
              \<and> (isCorrupted kerr \<longrightarrow>
                    fst (transact_round isCorrupted disableBackoff (tableBuild_exec env) ob tv sInit)
                      = Panicked errCompactionTransactExiting
                  \<and> (\<exists>tv' s'. tableBuild_transact isCorrupted disableBackoff env removeErr
                                 (ob # obs) sInit
                               = Some (Panicked errCompactionTransactExiting, tv', s')))))
       \<and> (\<not> strict env \<and> \<not> exitAt flt i \<and> failAt flt AtCreate i = None
            \<and> failAt flt AtAppend i = None \<and> failAt flt AtSizeFinish i = None \<longrightarrow>
            (\<exists>st'. build_step env flt i (ikey, v) st = Next st'
               \<and> emitted st' = emitted st @ [(ikey, v)]
               \<and> kerrCnt st' = kerrCnt st + 1 \<and> dropCnt st' = dropCnt st
               \<and> \<not> hasLastUkey st' \<and> lastUkey st' = [] \<and> lastSeq st' = kMaxSeq env
               \<and> (\<forall>ukey. step_track env ukey st'
                     = st'\<lparr>hasLastUkey := True, lastUkey := ukey, lastSeq := kMaxSeq env\<rparr>)))"
proof (intro conjI)
  show "strict env \<longrightarrow>
            build_step env flt i (ikey, v) st = Stop (ExecReturn (Some kerr)) (step_snapshot i st)
          \<and> (failAt flt AtNext i = None \<and> snapIter st \<le> i \<longrightarrow>
               fst (build_loop env flt i ((ikey, v) # rest) st) = ExecReturn (Some kerr))"
    using build_step_corrupt_key [OF assms, of flt i v st rest] by blast
next
  show "\<not> strict env \<and> \<not> exitAt flt i \<and> failAt flt AtCreate i = None
            \<and> failAt flt AtAppend i = None \<and> failAt flt AtSizeFinish i = None \<longrightarrow>
            (\<exists>st'. build_step env flt i (ikey, v) st = Next st'
               \<and> emitted st' = emitted st @ [(ikey, v)]
               \<and> kerrCnt st' = kerrCnt st + 1 \<and> dropCnt st' = dropCnt st
               \<and> \<not> hasLastUkey st' \<and> lastUkey st' = [] \<and> lastSeq st' = kMaxSeq env
               \<and> (\<forall>ukey. step_track env ukey st'
                     = st'\<lparr>hasLastUkey := True, lastUkey := ukey, lastSeq := kMaxSeq env\<rparr>))"
    using build_step_corrupt_key [OF assms, of flt i v st rest] by blast
next
  show "strict env \<and> cRecords env = pre @ (ikey, v) # rest
            \<and> build_prefix env flt 0 pre (tableBuild_start sInit) = Next sAt
            \<and> snapIter sInit \<le> length pre \<and> failAt flt AtNext (length pre) = None \<longrightarrow>
            fst (tableBuild_exec env flt sInit) = ExecReturn (Some kerr)
          \<and> (\<forall>ob tv. obsExec ob = flt \<and> \<not> obsIsClosed ob \<longrightarrow>
                fst (transact_round isCorrupted disableBackoff (tableBuild_exec env) ob tv sInit)
                  \<noteq> Returned
              \<and> (isCorrupted kerr \<longrightarrow>
                    fst (transact_round isCorrupted disableBackoff (tableBuild_exec env) ob tv sInit)
                      = Panicked errCompactionTransactExiting
                  \<and> (\<exists>tv' s'. tableBuild_transact isCorrupted disableBackoff env removeErr
                                 (ob # obs) sInit
                               = Some (Panicked errCompactionTransactExiting, tv', s'))))"
  proof (intro impI)
    assume h: "strict env \<and> cRecords env = pre @ (ikey, v) # rest
            \<and> build_prefix env flt 0 pre (tableBuild_start sInit) = Next sAt
            \<and> snapIter sInit \<le> length pre \<and> failAt flt AtNext (length pre) = None"
    then have hs: "strict env" "cRecords env = pre @ (ikey, v) # rest"
      "build_prefix env flt 0 pre (tableBuild_start sInit) = Next sAt"
      "snapIter sInit \<le> length pre" "failAt flt AtNext (length pre) = None"
      by simp_all
    have "snapIter (tableBuild_start sInit) \<le> 0 + length pre"
      using hs(4) by (simp add: tableBuild_start_def)
    then have si: "snapIter sAt \<le> length pre"
      using build_prefix_snapIter [OF hs(3)] by simp
    have "fst (build_loop env flt (length pre) ((ikey, v) # rest) sAt) = ExecReturn (Some kerr)"
      using build_step_corrupt_key [OF assms, of flt "length pre" v sAt rest] hs(1,5) si
      by blast
    then have "fst (build_loop env flt 0 (cRecords env) (tableBuild_start sInit))
                 = ExecReturn (Some kerr)"
      using build_loop_prefix [of env flt 0 pre "(ikey, v) # rest" "tableBuild_start sInit"] hs(2,3)
      by simp
    then have ex: "fst (tableBuild_exec env flt sInit) = ExecReturn (Some kerr)"
      by (cases "build_loop env flt 0 (cRecords env) (tableBuild_start sInit)")
         (simp add: tableBuild_exec_start)
    have rounds: "\<forall>ob tv. obsExec ob = flt \<and> \<not> obsIsClosed ob \<longrightarrow>
                fst (transact_round isCorrupted disableBackoff (tableBuild_exec env) ob tv sInit)
                  \<noteq> Returned
              \<and> (isCorrupted kerr \<longrightarrow>
                    fst (transact_round isCorrupted disableBackoff (tableBuild_exec env) ob tv sInit)
                      = Panicked errCompactionTransactExiting
                  \<and> (\<exists>tv' s'. tableBuild_transact isCorrupted disableBackoff env removeErr
                                 (ob # obs) sInit
                               = Some (Panicked errCompactionTransactExiting, tv', s')))"
    proof (intro allI impI conjI)
      fix ob :: "('a, 'a execFaults) roundObs" and tv :: "'a transactVars"
      assume o: "obsExec ob = flt \<and> \<not> obsIsClosed ob"
      then have e: "fst (tableBuild_exec env (obsExec ob) sInit) = ExecReturn (Some kerr)"
        using ex by simp
      show "fst (transact_round isCorrupted disableBackoff (tableBuild_exec env) ob tv sInit)
              \<noteq> Returned"
        by (rule transact_round_error(1)
                   [where exec = "tableBuild_exec env" and ob = ob and s = sInit and e = kerr,
                    OF e])
      assume c: "isCorrupted kerr"
      show "fst (transact_round isCorrupted disableBackoff (tableBuild_exec env) ob tv sInit)
              = Panicked errCompactionTransactExiting"
        by (rule transact_round_error(2)
                   [where exec = "tableBuild_exec env" and ob = ob and s = sInit and e = kerr
                      and isCorrupted = isCorrupted,
                    OF e c])
      have "fst (transact_round isCorrupted disableBackoff (tableBuild_exec env) ob
                   transact_init sInit) = Panicked errCompactionTransactExiting"
        by (rule transact_round_error(2)
                   [where exec = "tableBuild_exec env" and ob = ob and s = sInit and e = kerr
                      and isCorrupted = isCorrupted,
                    OF e c])
      then show "\<exists>tv' s'. tableBuild_transact isCorrupted disableBackoff env removeErr
                                 (ob # obs) sInit
                               = Some (Panicked errCompactionTransactExiting, tv', s')"
        unfolding tableBuild_transact_def
        by (rule compactionTransact_first_round_panics)
    qed
    show "fst (tableBuild_exec env flt sInit) = ExecReturn (Some kerr)
          \<and> (\<forall>ob tv. obsExec ob = flt \<and> \<not> obsIsClosed ob \<longrightarrow>
                fst (transact_round isCorrupted disableBackoff (tableBuild_exec env) ob tv sInit)
                  \<noteq> Returned
              \<and> (isCorrupted kerr \<longrightarrow>
                    fst (transact_round isCorrupted disableBackoff (tableBuild_exec env) ob tv sInit)
                      = Panicked errCompactionTransactExiting
                  \<and> (\<exists>tv' s'. tableBuild_transact isCorrupted disableBackoff env removeErr
                                 (ob # obs) sInit
                               = Some (Panicked errCompactionTransactExiting, tv', s'))))"
      using ex rounds by blast
  qed
qed

theorem tableBuild_corrupt_key_witness:
  "build_step (ex_env 0 True 1000 []) noFaults 0 (''zz'', ''v'') (tableCompaction_init 10)
     = Stop (ExecReturn (Some ''corrupted key'')) (step_snapshot 0 (tableCompaction_init 10))
   \<and> fst (tableBuild_exec (ex_env 0 True 1000 [(''a#5'', ''v5''), (''zz'', ''v'')]) noFaults
            (tableCompaction_init 10)) = ExecReturn (Some ''corrupted key'')
   \<and> (\<exists>tv' s'. tableBuild_transact (\<lambda>e. e = ''corrupted key'') False
                  (ex_env 0 True 1000 [(''a#5'', ''v5''), (''zz'', ''v'')]) (\<lambda>n. None)
                  [ex_round noFaults] (tableCompaction_init 10)
                = Some (Panicked errCompactionTransactExiting, tv', s'))
   \<and> (\<exists>st'. build_step (ex_env 0 False 1000 []) noFaults 1 (''zz'', ''v'') ex_after_a5 = Next st'
         \<and> emitted st' = emitted ex_after_a5 @ [(''zz'', ''v'')]
         \<and> kerrCnt st' = kerrCnt ex_after_a5 + 1 \<and> \<not> hasLastUkey st')"
proof -
  let ?env = "ex_env 0 True 1000 [(''a#5'', ''v5''), (''zz'', ''v'')]"
  let ?s1 = "flowState (build_prefix ?env noFaults 0 [(''a#5'', ''v5'')]
                          (tableBuild_start (tableCompaction_init 10)))"
  have p: "parseIkey ?env ''zz'' = Inl ''corrupted key''"
    by (simp add: ex_env_def ex_parseIkey_def)
  have pre: "build_prefix ?env noFaults 0 [(''a#5'', ''v5'')]
               (tableBuild_start (tableCompaction_init 10)) = Next ?s1"
    by code_simp
  have h: "strict ?env \<and> cRecords ?env = [(''a#5'', ''v5'')] @ (''zz'', ''v'') # []
            \<and> build_prefix ?env noFaults 0 [(''a#5'', ''v5'')]
                 (tableBuild_start (tableCompaction_init 10)) = Next ?s1
            \<and> snapIter (tableCompaction_init 10) \<le> length [(''a#5'', ''v5'')]
            \<and> failAt (noFaults :: string execFaults) AtNext (length [(''a#5'', ''v5'')]) = None"
    using pre by (simp add: ex_env_def tableCompaction_init_def noFaults_def)
  have c: "(\<lambda>e. e = ''corrupted key'') ''corrupted key''" by simp
  have o: "obsExec (ex_round (noFaults :: string execFaults)) = noFaults
             \<and> \<not> obsIsClosed (ex_round (noFaults :: string execFaults))"
    by (simp add: ex_round_def)
  note t = tableBuild_corrupt_key
             [where env = ?env and ikey = "''zz''" and kerr = "''corrupted key''"
                and flt = noFaults and v = "''v''" and pre = "[(''a#5'', ''v5'')]"
                and rest = "[]" and sInit = "tableCompaction_init 10" and sAt = ?s1
                and isCorrupted = "\<lambda>e. e = ''corrupted key''" and disableBackoff = False
                and removeErr = "\<lambda>n. None" and obs = "[]", OF p]
  have a: "fst (tableBuild_exec ?env noFaults (tableCompaction_init 10))
             = ExecReturn (Some ''corrupted key'')"
    using t h by blast
  have b: "\<exists>tv' s'. tableBuild_transact (\<lambda>e. e = ''corrupted key'') False ?env (\<lambda>n. None)
                  [ex_round noFaults] (tableCompaction_init 10)
                = Some (Panicked errCompactionTransactExiting, tv', s')"
    using t h c o by blast
  have d: "build_step (ex_env 0 True 1000 []) noFaults 0 (''zz'', ''v'') (tableCompaction_init 10)
     = Stop (ExecReturn (Some ''corrupted key'')) (step_snapshot 0 (tableCompaction_init 10))"
    using tableBuild_corrupt_key
          [where env = "ex_env 0 True 1000 []" and ikey = "''zz''" and kerr = "''corrupted key''"
             and flt = noFaults and i = 0 and v = "''v''" and st = "tableCompaction_init 10"]
    by (simp add: ex_env_def ex_parseIkey_def)
  have e: "\<exists>st'. build_step (ex_env 0 False 1000 []) noFaults 1 (''zz'', ''v'') ex_after_a5 = Next st'
         \<and> emitted st' = emitted ex_after_a5 @ [(''zz'', ''v'')]
         \<and> kerrCnt st' = kerrCnt ex_after_a5 + 1 \<and> \<not> hasLastUkey st'"
    using tableBuild_corrupt_key
          [where env = "ex_env 0 False 1000 []" and ikey = "''zz''" and kerr = "''corrupted key''"
             and flt = noFaults and i = 1 and v = "''v''" and st = ex_after_a5]
    by (simp add: ex_env_def ex_parseIkey_def noFaults_def) blast
  show ?thesis using a b d e by blast
qed

subsection \<open>Retry of \<open>table@build\<close>\<close>

text \<open>
  C3. Two records, each filling a table (\<open>tableSize = 1\<close>).  In the first round the table
  holding the first record is finished and staged, then the iterator fails before record 1:
  the loop ends before the scheduled snapshot is taken, so \<open>snapIter\<close> is still 0.  The
  retry starts again at record 0 with the staged table still in the record, and stages a
  second table with the same record.  The step returns with three tables; a run without the
  fault returns with two.
\<close>

theorem tableBuild_retry_duplicates_table:
  "map_option (\<lambda>(r, tv, st). (r, map atEntries (addedTables st)))
     (tableBuild_transact (\<lambda>e. e = ''corrupted key'') False
        (ex_env 0 False 1 [(''a#5'', ''v5''), (''b#4'', ''v4'')]) (\<lambda>n. None)
        [ex_round ex_iterFault, ex_round noFaults] (tableCompaction_init 10))
   = Some (Returned, [[(''a#5'', ''v5'')], [(''a#5'', ''v5'')], [(''b#4'', ''v4'')]])
   \<and> map_option (\<lambda>(r, tv, st). (r, map atEntries (addedTables st)))
     (tableBuild_transact (\<lambda>e. e = ''corrupted key'') False
        (ex_env 0 False 1 [(''a#5'', ''v5''), (''b#4'', ''v4'')]) (\<lambda>n. None)
        [ex_round noFaults] (tableCompaction_init 10))
   = Some (Returned, [[(''a#5'', ''v5'')], [(''b#4'', ''v4'')]])"
  by code_simp

subsection \<open>Abort and rollback\<close>

lemma rollback_loop_all_removed:
  "\<forall>r \<in> set rs. removeErr (atNum r) = None \<Longrightarrow>
   rollback_loop removeErr rs st
     = (None, st\<lparr>removedFiles := removedFiles st @ map atNum rs\<rparr>)"
  by (induction rs arbitrary: st) simp_all

text \<open>
  The three ways the runner itself gives up a round all end in the sentinel panic: the
  database is closed; \<open>exec\<close> fails while a persistent error is offered on \<open>compPerErrC\<close>;
  \<open>exec\<close> fails with a corruption error (whichever case of the \<open>select\<close> fires).
\<close>

lemma transact_round_aborts:
  "obsIsClosed ob \<Longrightarrow>
     fst (transact_round isCorrupted disableBackoff exec ob tv s)
       = Panicked errCompactionTransactExiting"
  "\<not> obsIsClosed ob \<Longrightarrow> exec (obsExec ob) s = (ExecReturn (Some e), c, s') \<Longrightarrow>
   obsPublish ob = RecvCompPerErr perr \<Longrightarrow>
     fst (transact_round isCorrupted disableBackoff exec ob tv s)
       = Panicked errCompactionTransactExiting"
  "\<not> obsIsClosed ob \<Longrightarrow> exec (obsExec ob) s = (ExecReturn (Some e), c, s') \<Longrightarrow>
   isCorrupted e \<Longrightarrow>
     fst (transact_round isCorrupted disableBackoff exec ob tv s)
       = Panicked errCompactionTransactExiting"
  by (auto simp: transact_round_def transact_publish_def Let_def
           split: publishCase.splits prod.splits)

text \<open>
  C5 (as amended). When the runner of \<open>table@build\<close> is left through the sentinel panic,
  the registered rollback runs once, on the state at the abort, before the panic goes on;
  the panic value stays the sentinel whatever the rollback returns, and an error of the
  rollback is only logged.  When the removal of every table file staged as added in the
  session record succeeds, the rollback removes every one of them, in order.
\<close>

theorem tableBuild_abort_rollback:
  assumes "transact_loop isCorrupted disableBackoff (tableBuild_exec env) obs transact_init st
             = Some (Panicked errCompactionTransactExiting, tv, st1)"
  shows "tableBuild_transact isCorrupted disableBackoff env removeErr obs st
           = Some (Panicked errCompactionTransactExiting,
                   (case fst (tableBuild_rollback removeErr st1) of
                      None \<Rightarrow> tv
                    | Some e \<Rightarrow> logf (LogRollbackError e) tv),
                   snd (tableBuild_rollback removeErr st1))
       \<and> ((\<forall>r \<in> set (addedTables st1). removeErr (atNum r) = None) \<longrightarrow>
            tableBuild_rollback removeErr st1
              = (None, st1\<lparr>removedFiles := removedFiles st1 @ map atNum (addedTables st1)\<rparr>))"
proof
  show "tableBuild_transact isCorrupted disableBackoff env removeErr obs st
           = Some (Panicked errCompactionTransactExiting,
                   (case fst (tableBuild_rollback removeErr st1) of
                      None \<Rightarrow> tv
                    | Some e \<Rightarrow> logf (LogRollbackError e) tv),
                   snd (tableBuild_rollback removeErr st1))"
    using assms
    by (cases "tableBuild_rollback removeErr st1")
       (auto simp: tableBuild_transact_def compactionTransact_def transact_deferred_def
             split: option.splits)
  show "(\<forall>r \<in> set (addedTables st1). removeErr (atNum r) = None) \<longrightarrow>
            tableBuild_rollback removeErr st1
              = (None, st1\<lparr>removedFiles := removedFiles st1 @ map atNum (addedTables st1)\<rparr>)"
    by (simp add: tableBuild_rollback_def rollback_loop_all_removed)
qed

theorem tableBuild_abort_rollback_witness:
  "map_option (\<lambda>(r, tv, st). (r, tvLogged tv, map atNum (addedTables st), removedFiles st))
     (tableBuild_transact (\<lambda>e. e = ''corrupted key'') False
        (ex_env 0 False 1 [(''a#5'', ''v5''), (''b#4'', ''v4'')]) (\<lambda>n. None)
        [ex_round ex_exitFault] (tableCompaction_init 10))
   = Some (Panicked errCompactionTransactExiting, [], [10], [10])"
proof -
  let ?L = "transact_loop (\<lambda>e. e = ''corrupted key'') False
              (tableBuild_exec (ex_env 0 False 1 [(''a#5'', ''v5''), (''b#4'', ''v4'')]))
              [ex_round ex_exitFault] transact_init (tableCompaction_init 10)"
  have "map_option (\<lambda>(r, tv, st). (r, tvLogged tv, map atNum (addedTables st), removedFiles st)) ?L
          = Some (Panicked errCompactionTransactExiting, [], [10], [])"
    by code_simp
  then obtain tv st1 where L: "?L = Some (Panicked errCompactionTransactExiting, tv, st1)"
    and v: "tvLogged tv = []" "map atNum (addedTables st1) = [10]" "removedFiles st1 = []"
    by (cases ?L) auto
  have ok: "\<forall>r \<in> set (addedTables st1). (\<lambda>n. None :: string option) (atNum r) = None"
    by simp
  show ?thesis
    using tableBuild_abort_rollback [OF L, of "\<lambda>n. None"] ok v
    by (simp add: logf_def)
qed

theorem tableBuild_rollback_remove_fails_counterexample:
  "map_option (\<lambda>(r, tv, st). (r, tvLogged tv, map atNum (addedTables st), removedFiles st))
     (tableBuild_transact (\<lambda>e. e = ''corrupted key'') False
        (ex_env 0 False 1 [(''a#5'', ''v5''), (''b#4'', ''v4'')])
        (\<lambda>n. if n = 10 then Some ''permission denied'' else None)
        [ex_round ex_exitFault] (tableCompaction_init 10))
   = Some (Panicked errCompactionTransactExiting, [LogRollbackError ''permission denied''],
           [10], [])"
  by code_simp

subsection \<open>Range compaction\<close>

lemma rangeLevels_eachLevel:
  "0 \<le> level \<Longrightarrow>
   rangeLevels env umin umax m level st = rangeEachLevel env umin umax [level..m - 1] st"
proof (induction env umin umax m level st rule: rangeLevels.induct)
  case (1 env umin umax m level st)
  show ?case
  proof (cases "level < m")
    case False
    then show ?thesis by (simp add: rangeLevels.simps [of env umin umax m level st])
  next
    case True
    then have up: "[level..m - 1] = level # [level + 1..m - 1]"
      by (simp add: upto_rec1)
    show ?thesis
    proof (cases "rangeCompactLevel env level umin umax st")
      case (Inl x)
      then show ?thesis
        using True up
        by (auto simp: rangeLevels.simps [of env umin umax m level st] rangeCompactLevel_def
                 split: option.splits sum.splits)
    next
      case (Inr st')
      have "rangeLevels env umin umax m (level + 1) st'
              = rangeEachLevel env umin umax [level + 1..m - 1] st'"
        using "1.IH" [OF True Inr] "1.prems" by simp
      then show ?thesis
        using True up Inr
        by (auto simp: rangeLevels.simps [of env umin umax m level st] rangeCompactLevel_def
                 split: option.splits sum.splits)
    qed
  qed
qed

lemma rangeEachLevel_append:
  "rangeEachLevel env umin umax (xs @ ys) st
     = (case rangeEachLevel env umin umax xs st of
          Inl x \<Rightarrow> Inl x
        | Inr st1 \<Rightarrow> rangeEachLevel env umin umax ys st1)"
  by (induction xs arbitrary: st) (auto split: option.splits sum.splits)

lemma rangeDeepest_deepest:
  "rangeDeepest ov i ts m = m \<and> (\<forall>t \<in> set ts. \<not> ov t)
   \<or> (\<exists>j < length ts. rangeDeepest ov i ts m = i + 1 + int j \<and> ov (ts ! j)
         \<and> (\<forall>k. j < k \<and> k < length ts \<longrightarrow> \<not> ov (ts ! k)))"
proof (induction ov i ts m rule: rangeDeepest.induct)
  case (1 ov i m)
  then show ?case by simp
next
  case (2 ov i t ts m)
  let ?m' = "if ov t then i + 1 else m"
  from "2.IH" show ?case
  proof
    assume a: "rangeDeepest ov (i + 1) ts ?m' = ?m' \<and> (\<forall>t \<in> set ts. \<not> ov t)"
    show ?thesis
    proof (cases "ov t")
      case True
      have "\<forall>k. 0 < k \<and> k < length (t # ts) \<longrightarrow> \<not> ov ((t # ts) ! k)"
        using a by (auto simp: nth_Cons split: nat.splits)
      then have "0 < length (t # ts) \<and> rangeDeepest ov i (t # ts) m = i + 1 + int 0
                 \<and> ov ((t # ts) ! 0)
                 \<and> (\<forall>k. 0 < k \<and> k < length (t # ts) \<longrightarrow> \<not> ov ((t # ts) ! k))"
        using a True by simp
      then show ?thesis by blast
    next
      case False
      then show ?thesis using a by simp
    qed
  next
    assume "\<exists>j < length ts. rangeDeepest ov (i + 1) ts ?m' = i + 1 + 1 + int j \<and> ov (ts ! j)
               \<and> (\<forall>k. j < k \<and> k < length ts \<longrightarrow> \<not> ov (ts ! k))"
    then obtain j where j: "j < length ts"
      "rangeDeepest ov (i + 1) ts ?m' = i + 1 + 1 + int j" "ov (ts ! j)"
      "\<forall>k. j < k \<and> k < length ts \<longrightarrow> \<not> ov (ts ! k)"
      by blast
    have "\<forall>k. Suc j < k \<and> k < length (t # ts) \<longrightarrow> \<not> ov ((t # ts) ! k)"
      using j(4) by (auto simp: nth_Cons split: nat.splits)
    then have "Suc j < length (t # ts)
               \<and> rangeDeepest ov i (t # ts) m = i + 1 + int (Suc j) \<and> ov ((t # ts) ! Suc j)
               \<and> (\<forall>k. Suc j < k \<and> k < length (t # ts) \<longrightarrow> \<not> ov ((t # ts) ! k))"
      using j by simp
    then show ?thesis by blast
  qed
qed

lemma rangeEachLevel_calls:
  "rangeEachLevel env umin umax ls st = Inr st' \<Longrightarrow>
   \<exists>new. snd st' = snd st @ new \<and> (\<forall>c \<in> set new. snd c \<and> fst c \<in> set ls)"
proof (induction ls arbitrary: st)
  case Nil
  then show ?case by simp
next
  case (Cons l ls)
  show ?case
  proof (cases "getCompactionRange env (fst st) l umin umax")
    case None
    then have "rangeEachLevel env umin umax ls st = Inr st'" using Cons.prems by simp
    from Cons.IH [OF this] show ?thesis by auto
  next
    case (Some c)
    then obtain s' where s': "tableCompaction env c True (fst st) = Inr s'"
      and r: "rangeEachLevel env umin umax ls (s', snd st @ [(l, True)]) = Inr st'"
      using Cons.prems by (auto split: sum.splits)
    from Cons.IH [OF r] obtain new where
      n: "snd st' = (snd st @ [(l, True)]) @ new" "\<forall>c \<in> set new. snd c \<and> fst c \<in> set ls"
      by auto
    have "snd st' = snd st @ ((l, True) # new)" using n(1) by simp
    moreover have "\<forall>c \<in> set ((l, True) # new). snd c \<and> fst c \<in> set (l # ls)"
      using n(2) by auto
    ultimately show ?thesis by blast
  qed
qed

text \<open>The loop from level 0 to \<open>m\<close>, cut where it reaches level \<open>l\<close>.\<close>

lemma rangeLevels_at_level:
  assumes "0 \<le> l" and "l < m"
  shows "rangeLevels env umin umax m 0 st
           = (case rangeLevels env umin umax l 0 st of
                Inl x \<Rightarrow> Inl x
              | Inr stl \<Rightarrow>
                  (case getCompactionRange env (fst stl) l umin umax of
                     None \<Rightarrow> rangeLevels env umin umax m (l + 1) stl
                   | Some c \<Rightarrow>
                       (case tableCompaction env c True (fst stl) of
                          Inl x \<Rightarrow> Inl x
                        | Inr s' \<Rightarrow>
                            rangeLevels env umin umax m (l + 1) (s', snd stl @ [(l, True)]))))"
proof -
  have split: "[0..m - 1] = [0..l - 1] @ l # [l + 1..m - 1]"
    using assms by (simp add: upto_split3)
  have a: "rangeLevels env umin umax m 0 st = rangeEachLevel env umin umax [0..m - 1] st"
    by (simp add: rangeLevels_eachLevel)
  have b: "rangeLevels env umin umax l 0 st = rangeEachLevel env umin umax [0..l - 1] st"
    by (simp add: rangeLevels_eachLevel)
  have c: "\<And>st1. rangeLevels env umin umax m (l + 1) st1
                   = rangeEachLevel env umin umax [l + 1..m - 1] st1"
    using assms(1) by (simp add: rangeLevels_eachLevel)
  show ?thesis
    unfolding a b c split rangeEachLevel_append
    by (simp split: sum.splits option.splits)
qed

lemma rangeEachLevel_level_called:
  assumes "0 \<le> l" and "l < m"
    and "rangeEachLevel env umin umax [0..m - 1] st = Inr st'"
  shows "\<exists>stl new. rangeEachLevel env umin umax [0..l - 1] st = Inr stl
           \<and> snd st' = snd st @ new
           \<and> ((l, True) \<in> set new \<longleftrightarrow> getCompactionRange env (fst stl) l umin umax \<noteq> None)"
proof -
  have split: "[0..m - 1] = [0..l - 1] @ l # [l + 1..m - 1]"
    using assms(1,2) by (simp add: upto_split3)
  obtain stl where stl: "rangeEachLevel env umin umax [0..l - 1] st = Inr stl"
    and rest: "rangeEachLevel env umin umax (l # [l + 1..m - 1]) stl = Inr st'"
    using assms(3) unfolding split rangeEachLevel_append by (auto split: sum.splits)
  obtain n1 where n1: "snd stl = snd st @ n1" "\<forall>c \<in> set n1. snd c \<and> fst c \<in> set [0..l - 1]"
    using rangeEachLevel_calls [OF stl] by blast
  have low: "(l, True) \<notin> set n1" using n1(2) by auto
  show ?thesis
  proof (cases "getCompactionRange env (fst stl) l umin umax")
    case None
    then have "rangeEachLevel env umin umax [l + 1..m - 1] stl = Inr st'" using rest by simp
    then obtain n3 where n3: "snd st' = snd stl @ n3"
      "\<forall>c \<in> set n3. snd c \<and> fst c \<in> set [l + 1..m - 1]"
      using rangeEachLevel_calls by blast
    have "(l, True) \<notin> set n3" using n3(2) by auto
    then have "snd st' = snd st @ (n1 @ n3) \<and> (l, True) \<notin> set (n1 @ n3)"
      using n1(1) n3(1) low by simp
    then show ?thesis using stl None by blast
  next
    case (Some c)
    then obtain s' where
      r: "rangeEachLevel env umin umax [l + 1..m - 1] (s', snd stl @ [(l, True)]) = Inr st'"
      using rest by (auto split: sum.splits)
    obtain n3 where n3: "snd st' = (snd stl @ [(l, True)]) @ n3"
      using rangeEachLevel_calls [OF r] by auto
    have "snd st' = snd st @ (n1 @ (l, True) # n3) \<and> (l, True) \<in> set (n1 @ (l, True) # n3)"
      using n1(1) n3 by simp
    then show ?thesis using stl Some by blast
  qed
qed

text \<open>
  C8 (as amended). For a call with \<open>level < 0\<close>, let \<open>m\<close> be what the first loop computes:
  the deepest level from 1 on whose tables overlap \<open>[umin, umax]\<close>, or 1 when no such level
  overlaps.  Then the call goes through the levels from 0 through \<open>m - 1\<close> in turn and at
  each of them fetches a compaction covering the range and, when the session yields one,
  runs it with \<open>noTrivial = true\<close>, on the session as the levels before have left it; a
  compaction that unwinds with a panic ends the call there.  When the call returns, a
  compaction has been run at a level from 0 through \<open>m - 1\<close> exactly when the session
  yielded one as that level was reached; every compaction run has \<open>noTrivial = true\<close>, so
  none is done as a trivial move, and level \<open>m\<close> itself is not compacted.
\<close>

theorem tableRangeCompaction_levels:
  assumes "level < 0"
    and "versionTables env (fst st) = tabs"
    and "tabs \<noteq> []"
    and "m = rangeDeepest (\<lambda>t. overlaps env t umin umax) 0 (tl tabs) 1"
  shows "tableRangeCompaction env level umin umax st
           = rangeEachLevel env umin umax [0..m - 1] st
       \<and> (m = 1 \<and> (\<forall>k. 0 < k \<and> k < length tabs \<longrightarrow> \<not> overlaps env (tabs ! k) umin umax)
          \<or> 1 \<le> m \<and> nat m < length tabs \<and> overlaps env (tabs ! nat m) umin umax
            \<and> (\<forall>k. nat m < k \<and> k < length tabs \<longrightarrow> \<not> overlaps env (tabs ! k) umin umax))
       \<and> (\<forall>l. 0 \<le> l \<and> l < m \<longrightarrow>
            tableRangeCompaction env level umin umax st
              = (case rangeLevels env umin umax l 0 st of
                   Inl x \<Rightarrow> Inl x
                 | Inr stl \<Rightarrow>
                     (case getCompactionRange env (fst stl) l umin umax of
                        None \<Rightarrow> rangeLevels env umin umax m (l + 1) stl
                      | Some c \<Rightarrow>
                          (case tableCompaction env c True (fst stl) of
                             Inl x \<Rightarrow> Inl x
                           | Inr s' \<Rightarrow>
                               rangeLevels env umin umax m (l + 1)
                                 (s', snd stl @ [(l, True)])))))
       \<and> (\<forall>st'. tableRangeCompaction env level umin umax st = Inr st' \<longrightarrow>
            (\<exists>new. snd st' = snd st @ new
               \<and> (\<forall>c \<in> set new. snd c \<and> 0 \<le> fst c \<and> fst c < m
                      \<and> (\<forall>cTrivial. \<not> tableCompaction_moves (snd c) cTrivial))
               \<and> (\<forall>l. 0 \<le> l \<and> l < m \<longrightarrow>
                     (\<exists>stl. rangeLevels env umin umax l 0 st = Inr stl
                        \<and> ((l, True) \<in> set new
                             \<longleftrightarrow> getCompactionRange env (fst stl) l umin umax \<noteq> None)))))"
proof -
  obtain t0 ts where tabs: "tabs = t0 # ts" using assms(3) by (cases tabs) auto
  let ?ov = "\<lambda>t. overlaps env t umin umax"
  have m: "m = rangeDeepest ?ov 0 ts 1" using assms(4) tabs by simp
  have loop: "tableRangeCompaction env level umin umax st = rangeLevels env umin umax m 0 st"
    using assms(1,2) tabs m by (simp add: tableRangeCompaction_def)
  have eq: "tableRangeCompaction env level umin umax st
              = rangeEachLevel env umin umax [0..m - 1] st"
    using loop by (simp add: rangeLevels_eachLevel)
  have deep: "m = 1 \<and> (\<forall>k. 0 < k \<and> k < length tabs \<longrightarrow> \<not> ?ov (tabs ! k))
          \<or> 1 \<le> m \<and> nat m < length tabs \<and> ?ov (tabs ! nat m)
            \<and> (\<forall>k. nat m < k \<and> k < length tabs \<longrightarrow> \<not> ?ov (tabs ! k))"
    using rangeDeepest_deepest [of ?ov 0 ts 1]
  proof
    assume "rangeDeepest ?ov 0 ts 1 = 1 \<and> (\<forall>t \<in> set ts. \<not> ?ov t)"
    then have "m = 1" "\<forall>k. 0 < k \<and> k < length tabs \<longrightarrow> \<not> ?ov (tabs ! k)"
      using m tabs by (auto simp: nth_Cons split: nat.splits)
    then show ?thesis by blast
  next
    assume "\<exists>j < length ts. rangeDeepest ?ov 0 ts 1 = 0 + 1 + int j \<and> ?ov (ts ! j)
               \<and> (\<forall>k. j < k \<and> k < length ts \<longrightarrow> \<not> ?ov (ts ! k))"
    then obtain j where j: "j < length ts" "m = 1 + int j" "?ov (ts ! j)"
      "\<forall>k. j < k \<and> k < length ts \<longrightarrow> \<not> ?ov (ts ! k)"
      using m by auto
    have nm: "nat m = Suc j" using j(2) by simp
    have "\<forall>k. Suc j < k \<and> k < length tabs \<longrightarrow> \<not> ?ov (tabs ! k)"
      using j(4) tabs by (auto simp: nth_Cons split: nat.splits)
    then have "1 \<le> m \<and> nat m < length tabs \<and> ?ov (tabs ! nat m)
            \<and> (\<forall>k. nat m < k \<and> k < length tabs \<longrightarrow> \<not> ?ov (tabs ! k))"
      using j tabs nm by simp
    then show ?thesis by blast
  qed
  have each: "\<forall>l. 0 \<le> l \<and> l < m \<longrightarrow>
            tableRangeCompaction env level umin umax st
              = (case rangeLevels env umin umax l 0 st of
                   Inl x \<Rightarrow> Inl x
                 | Inr stl \<Rightarrow>
                     (case getCompactionRange env (fst stl) l umin umax of
                        None \<Rightarrow> rangeLevels env umin umax m (l + 1) stl
                      | Some c \<Rightarrow>
                          (case tableCompaction env c True (fst stl) of
                             Inl x \<Rightarrow> Inl x
                           | Inr s' \<Rightarrow>
                               rangeLevels env umin umax m (l + 1)
                                 (s', snd stl @ [(l, True)]))))"
    using rangeLevels_at_level [of _ m env umin umax st] loop by simp
  have calls: "\<forall>st'. tableRangeCompaction env level umin umax st = Inr st' \<longrightarrow>
            (\<exists>new. snd st' = snd st @ new
               \<and> (\<forall>c \<in> set new. snd c \<and> 0 \<le> fst c \<and> fst c < m
                      \<and> (\<forall>cTrivial. \<not> tableCompaction_moves (snd c) cTrivial))
               \<and> (\<forall>l. 0 \<le> l \<and> l < m \<longrightarrow>
                     (\<exists>stl. rangeLevels env umin umax l 0 st = Inr stl
                        \<and> ((l, True) \<in> set new
                             \<longleftrightarrow> getCompactionRange env (fst stl) l umin umax \<noteq> None))))"
  proof (intro allI impI)
    fix st'
    assume "tableRangeCompaction env level umin umax st = Inr st'"
    then have r: "rangeEachLevel env umin umax [0..m - 1] st = Inr st'" using eq by simp
    from rangeEachLevel_calls [OF r]
    obtain new where new: "snd st' = snd st @ new"
      "\<forall>c \<in> set new. snd c \<and> fst c \<in> set [0..m - 1]"
      by blast
    have bound: "\<forall>c \<in> set new. snd c \<and> 0 \<le> fst c \<and> fst c < m
                      \<and> (\<forall>cTrivial. \<not> tableCompaction_moves (snd c) cTrivial)"
      using new(2) by (auto simp: tableCompaction_moves_def)
    have lev: "\<forall>l. 0 \<le> l \<and> l < m \<longrightarrow>
                     (\<exists>stl. rangeLevels env umin umax l 0 st = Inr stl
                        \<and> ((l, True) \<in> set new
                             \<longleftrightarrow> getCompactionRange env (fst stl) l umin umax \<noteq> None))"
    proof (intro allI impI)
      fix l
      assume l: "0 \<le> l \<and> l < m"
      then obtain stl new' where
        a: "rangeEachLevel env umin umax [0..l - 1] st = Inr stl"
        "snd st' = snd st @ new'"
        "(l, True) \<in> set new' \<longleftrightarrow> getCompactionRange env (fst stl) l umin umax \<noteq> None"
        using rangeEachLevel_level_called [of l m env umin umax st st'] r by blast
      have "new' = new" using a(2) new(1) by simp
      moreover have "rangeLevels env umin umax l 0 st = Inr stl"
        using a(1) by (simp add: rangeLevels_eachLevel)
      ultimately show "\<exists>stl. rangeLevels env umin umax l 0 st = Inr stl
                        \<and> ((l, True) \<in> set new
                             \<longleftrightarrow> getCompactionRange env (fst stl) l umin umax \<noteq> None)"
        using a(3) by blast
    qed
    show "\<exists>new. snd st' = snd st @ new
               \<and> (\<forall>c \<in> set new. snd c \<and> 0 \<le> fst c \<and> fst c < m
                      \<and> (\<forall>cTrivial. \<not> tableCompaction_moves (snd c) cTrivial))
               \<and> (\<forall>l. 0 \<le> l \<and> l < m \<longrightarrow>
                     (\<exists>stl. rangeLevels env umin umax l 0 st = Inr stl
                        \<and> ((l, True) \<in> set new
                             \<longleftrightarrow> getCompactionRange env (fst stl) l umin umax \<noteq> None)))"
      using new(1) bound lev by blast
  qed
  show ?thesis using eq deep each calls by blast
qed

theorem tableRangeCompaction_levels_witness:
  "tableRangeCompaction ex_rangeEnv (- 1) ''a'' ''z'' ([[''t0''], [''t1''], [''t2''], []], [])
     = rangeEachLevel ex_rangeEnv ''a'' ''z'' [0..2 - 1] ([[''t0''], [''t1''], [''t2''], []], [])
   \<and> rangeEachLevel ex_rangeEnv ''a'' ''z'' [0..2 - 1] ([[''t0''], [''t1''], [''t2''], []], [])
     = Inr ([[], [], [''t2'', ''t1'', ''t0''], []], [(0, True), (1, True)])"
proof
  have m: "(2 :: int) = rangeDeepest (\<lambda>t. overlaps ex_rangeEnv t ''a'' ''z'') 0
                          (tl [[''t0''], [''t1''], [''t2''], []]) 1"
    by (simp add: ex_rangeEnv_def)
  have v: "versionTables ex_rangeEnv (fst ([[''t0''], [''t1''], [''t2''], []], []))
             = [[''t0''], [''t1''], [''t2''], []]"
    by (simp add: ex_rangeEnv_def)
  show "tableRangeCompaction ex_rangeEnv (- 1) ''a'' ''z'' ([[''t0''], [''t1''], [''t2''], []], [])
     = rangeEachLevel ex_rangeEnv ''a'' ''z'' [0..2 - 1] ([[''t0''], [''t1''], [''t2''], []], [])"
    using tableRangeCompaction_levels [of "- 1" ex_rangeEnv
            "([[''t0''], [''t1''], [''t2''], []], [])" "[[''t0''], [''t1''], [''t2''], []]" 2
            "''a''" "''z''", OF _ v _ m]
    by simp
  show "rangeEachLevel ex_rangeEnv ''a'' ''z'' [0..2 - 1] ([[''t0''], [''t1''], [''t2''], []], [])
     = Inr ([[], [], [''t2'', ''t1'', ''t0''], []], [(0, True), (1, True)])"
    by code_simp
qed

theorem tableRangeCompaction_level_m_counterexample:
  "rangeDeepest (\<lambda>t. overlaps ex_rangeEnv t ''a'' ''z'') 0 [[''t1''], [''t2''], []] 1 = 2
   \<and> tableRangeCompaction ex_rangeEnv (- 1) ''a'' ''z'' ([[''t0''], [''t1''], [''t2''], []], [])
     = Inr ([[], [], [''t2'', ''t1'', ''t0''], []], [(0, True), (1, True)])
   \<and> getCompactionRange ex_rangeEnv [[''t0''], [''t1''], [''t2''], []] 2 ''a'' ''z'' = Some 2
   \<and> getCompactionRange ex_rangeEnv [[], [], [''t2'', ''t1'', ''t0''], []] 2 ''a'' ''z'' = Some 2"
  by code_simp

end
